theory Spec2Isabelle
  imports Main "HOL-Library.Word"
begin

unbundle bit_operations_syntax

section \<open>Basic types\<close>

type_synonym uint8 = "8 word"
type_synonym uint16 = "16 word"
type_synonym uint32 = "32 word"
type_synonym uint64 = "64 word"

text \<open>A C \<^verbatim>\<open>int\<close> (\<^verbatim>\<open>int32_t\<close>): 32 bits, read as two's complement by \<^term>\<open>sint\<close>.\<close>

type_synonym int32 = "32 word"

text \<open>\<^verbatim>\<open>e::buffer\<close>: a byte string.\<close>

type_synonym buffer = "uint8 list"

definition UINT32_MAX :: uint32 where
  "UINT32_MAX = 4294967295"

definition INT32_MAX :: int32 where
  "INT32_MAX = 2147483647"

datatype returncode =
    SUCCESS | NOTFOUND | WRONGARITY | DATAFULL | SEARCHFULL | HASHFULL
  | SYNCFAILED | DROPFAILED | MISSINGDISK | SPLITFAILED

section \<open>Coordinates\<close>

record coordinate =
  primary_mask :: uint32
  primary_hash :: uint32
  secondary_mask :: uint32
  secondary_hash :: uint32

definition mk_coordinate :: "uint32 \<Rightarrow> uint32 \<Rightarrow> uint32 \<Rightarrow> uint32 \<Rightarrow> coordinate" where
  "mk_coordinate pm ph sm sh =
     \<lparr>primary_mask = pm, primary_hash = ph, secondary_mask = sm, secondary_hash = sh\<rparr>"

text \<open>
  Modelled from the spec: the class \<^verbatim>\<open>coordinate\<close> (hyperspacehashing/mask.h, seen
  through coordinate.h) is not among the sources. The specification gives its algebra:
  \<open>A\<close> contains \<open>B\<close> iff \<^verbatim>\<open>(A.pm & (A.ph ^ B.ph)) == 0\<close> and
  \<^verbatim>\<open>(A.sm & (A.sh ^ B.sh)) == 0\<close>; \<open>primary_contains\<close> uses only the primary half;
  \<open>intersects\<close> is the symmetric variant.
\<close>

definition primary_contains :: "coordinate \<Rightarrow> coordinate \<Rightarrow> bool" where
  "primary_contains a b \<longleftrightarrow> primary_mask a AND (primary_hash a XOR primary_hash b) = 0"

definition secondary_contains :: "coordinate \<Rightarrow> coordinate \<Rightarrow> bool" where
  "secondary_contains a b \<longleftrightarrow> secondary_mask a AND (secondary_hash a XOR secondary_hash b) = 0"

definition contains :: "coordinate \<Rightarrow> coordinate \<Rightarrow> bool" where
  "contains a b \<longleftrightarrow> primary_contains a b \<and> secondary_contains a b"

definition intersects :: "coordinate \<Rightarrow> coordinate \<Rightarrow> bool" where
  "intersects a b \<longleftrightarrow>
     primary_mask a AND primary_mask b AND (primary_hash a XOR primary_hash b) = 0
     \<and> secondary_mask a AND secondary_mask b AND (secondary_hash a XOR secondary_hash b) = 0"

section \<open>Shard layout (shard.cc)\<close>

text \<open>
  Modelled from the spec: shard_constants.h is not among the sources. The specification
  fixes the layout (hash table, then search log, then data segment, in one file of
  \<open>FILE_SIZE\<close> bytes), the slot sizes (8 and 16 bytes), \<open>HASH_OFFSET_INVALID = 1 << 31\<close>
  and linear probing from \<open>primary_hash mod H\<close>, and suggests 65536 entries for both
  tables and a file of 256 MiB; these values are used here.
\<close>

definition HASH_TABLE_ENTRIES :: nat where
  "HASH_TABLE_ENTRIES = 65536"

definition SEARCH_INDEX_ENTRIES :: nat where
  "SEARCH_INDEX_ENTRIES = 65536"

definition HASH_TABLE_SIZE :: nat where
  "HASH_TABLE_SIZE = HASH_TABLE_ENTRIES * 8"

definition SEARCH_INDEX_SIZE :: nat where
  "SEARCH_INDEX_SIZE = SEARCH_INDEX_ENTRIES * 16"

definition INDEX_SEGMENT_SIZE :: nat where
  "INDEX_SEGMENT_SIZE = HASH_TABLE_SIZE + SEARCH_INDEX_SIZE"

definition FILE_SIZE :: nat where
  "FILE_SIZE = 268435456"

definition DATA_SEGMENT_SIZE :: nat where
  "DATA_SEGMENT_SIZE = FILE_SIZE - INDEX_SEGMENT_SIZE"

definition HASH_OFFSET_INVALID :: uint32 where
  "HASH_OFFSET_INVALID = 2147483648"

definition HASH_INTO_TABLE :: "nat \<Rightarrow> nat" where
  "HASH_INTO_TABLE x = x mod HASH_TABLE_ENTRIES"

text \<open>
  The memory mapping of one shard file. The code reaches the hash table and the search
  log through \<^verbatim>\<open>uint64_t\<close> pointers and the records through \<^verbatim>\<open>char\<close> pointers, so the
  two index regions are arrays of 64-bit words and \<open>m_data\<close> is an array of bytes
  addressed by file offset. The code does not check any of these accesses against the
  size of the mapping; the arrays of the model are total. \<open>msync_async_calls\<close> is not a
  field of the class: it counts the \<^verbatim>\<open>msync(MS_ASYNC)\<close> calls issued on the mapping.
\<close>

record shard =
  m_hash_table :: "nat \<Rightarrow> uint64"
  m_search_log :: "nat \<Rightarrow> uint64"
  m_data :: "nat \<Rightarrow> uint8"
  m_data_offset :: uint32
  m_search_offset :: nat
  msync_async_calls :: nat

text \<open>\<^verbatim>\<open>shard::create\<close>: a file of zeros, mapped by the constructor, which sets the
  two offsets.\<close>

definition shard_create :: shard where
  "shard_create =
     \<lparr>m_hash_table = (\<lambda>_. 0), m_search_log = (\<lambda>_. 0), m_data = (\<lambda>_. 0),
      m_data_offset = of_nat INDEX_SEGMENT_SIZE, m_search_offset = 0,
      msync_async_calls = 0\<rparr>"

subsection \<open>Bytes\<close>

text \<open>The host is little-endian: \<^verbatim>\<open>memmove(m_data + off, &x, sizeof(x))\<close> stores the
  low byte first.\<close>

definition le_bytes :: "nat \<Rightarrow> 'a::len word \<Rightarrow> uint8 list" where
  "le_bytes n w = map (\<lambda>i. ucast (drop_bit (8 * i) w)) [0..<n]"

primrec le_word :: "uint8 list \<Rightarrow> 'a::len word" where
  "le_word [] = 0"
| "le_word (b # bs) = ucast b OR push_bit 8 (le_word bs)"

definition read_bytes :: "(nat \<Rightarrow> uint8) \<Rightarrow> nat \<Rightarrow> nat \<Rightarrow> uint8 list" where
  "read_bytes d a n = map (\<lambda>i. d (a + i)) [0..<n]"

definition write_bytes :: "(nat \<Rightarrow> uint8) \<Rightarrow> nat \<Rightarrow> uint8 list \<Rightarrow> nat \<Rightarrow> uint8" where
  "write_bytes d a bs = (\<lambda>x. if a \<le> x \<and> x < a + length bs then bs ! (x - a) else d x)"

subsection \<open>Record accessors\<close>

definition data_size :: "buffer \<Rightarrow> buffer list \<Rightarrow> nat" where
  "data_size key val =
     foldl (\<lambda>hypothetical_size v. hypothetical_size + length v)
       (8 + 4 + 2 + length key + 4 * length val) val"

text \<open>The assertion \<^verbatim>\<open>((offset + 7) & ~7) == offset\<close> of the accessors.\<close>

definition aligned8 :: "uint32 \<Rightarrow> bool" where
  "aligned8 offset \<longleftrightarrow> (offset + 7) AND NOT 7 = offset"

text \<open>An accessor whose assertion fails aborts the process: \<open>None\<close>.\<close>

definition data_version :: "shard \<Rightarrow> uint32 \<Rightarrow> uint64 option" where
  "data_version s offset =
     (if aligned8 offset then Some (le_word (read_bytes (m_data s) (unat offset) 8)) else None)"

definition data_key_size :: "shard \<Rightarrow> uint32 \<Rightarrow> nat option" where
  "data_key_size s offset =
     (if aligned8 offset
      then Some (unat (le_word (read_bytes (m_data s) (unat offset + 8) 4) :: uint32))
      else None)"

text \<open>\<^verbatim>\<open>data_key_offset\<close> is declared in shard.h, which is not among the sources; the
  accessor \<^verbatim>\<open>data_key\<close> reads the key at \<open>offset + sizeof(uint64_t) + sizeof(uint32_t)\<close>.\<close>

definition data_key_offset :: "uint32 \<Rightarrow> nat" where
  "data_key_offset offset = unat offset + 8 + 4"

fun data_value_loop :: "(nat \<Rightarrow> uint8) \<Rightarrow> nat \<Rightarrow> uint32 \<Rightarrow> buffer list" where
  "data_value_loop d 0 cur_offset = []"
| "data_value_loop d (Suc n) cur_offset =
     (let size = (le_word (read_bytes d (unat cur_offset) 4) :: uint32);
          cur_offset = cur_offset + 4;
          buf = read_bytes d (unat cur_offset) (unat size)
      in buf # data_value_loop d n (cur_offset + size))"

definition data_value :: "shard \<Rightarrow> uint32 \<Rightarrow> nat \<Rightarrow> buffer list option" where
  "data_value s offset keysize =
     (if aligned8 offset then
        (let cur_offset = offset + 8 + 4 + of_nat keysize;
             num_dims = (le_word (read_bytes (m_data s) (unat cur_offset) 2) :: uint16);
             cur_offset = cur_offset + 2
         in Some (data_value_loop (m_data s) (unat num_dims) cur_offset))
      else None)"

subsection \<open>\<^verbatim>\<open>hash_lookup\<close>\<close>

text \<open>
  One iteration of the probe loop at \<open>bucket\<close>: \<open>Some True\<close> when the loop returns this
  bucket (the stored hash and key match, or the offset half of the slot is zero),
  \<open>Some False\<close> when it moves on, \<open>None\<close> when the assertion of \<^verbatim>\<open>data_key_size\<close>
  fails.
\<close>

definition probe_slot :: "shard \<Rightarrow> uint32 \<Rightarrow> buffer \<Rightarrow> nat \<Rightarrow> bool option" where
  "probe_slot s ph key bucket =
     (let this_entry = m_hash_table s bucket;
          this_hash = (ucast this_entry :: uint32);
          this_offset = (ucast (drop_bit 32 this_entry) :: uint32) AND (HASH_OFFSET_INVALID - 1);
          empty = ((ucast (drop_bit 32 this_entry) :: uint32) = 0)
      in if this_hash = ph then
           (case data_key_size s this_offset of
              None \<Rightarrow> None
            | Some key_size \<Rightarrow>
                if key_size = length key
                   \<and> read_bytes (m_data s) (data_key_offset this_offset) key_size = key
                then Some True
                else Some empty)
         else Some empty)"

text \<open>The loop \<^verbatim>\<open>for (off = 0; off < HASH_TABLE_ENTRIES; ++off)\<close>; running off its end
  reaches \<^verbatim>\<open>assert(false)\<close>.\<close>

function hash_probe :: "shard \<Rightarrow> uint32 \<Rightarrow> buffer \<Rightarrow> nat \<Rightarrow> nat \<Rightarrow> (nat \<times> uint64) option" where
  "hash_probe s ph key start off =
     (if off < HASH_TABLE_ENTRIES then
        (if probe_slot s ph key (HASH_INTO_TABLE (start + off)) = None then None
         else if probe_slot s ph key (HASH_INTO_TABLE (start + off)) = Some True
         then Some (HASH_INTO_TABLE (start + off), m_hash_table s (HASH_INTO_TABLE (start + off)))
         else hash_probe s ph key start (off + 1))
      else None)"
  by pat_completeness auto
termination
  by (relation "measure (\<lambda>(s, ph, key, start, off). HASH_TABLE_ENTRIES - off)") auto

declare hash_probe.simps [simp del]

definition hash_lookup :: "shard \<Rightarrow> uint32 \<Rightarrow> buffer \<Rightarrow> (nat \<times> uint64) option" where
  "hash_lookup s ph key = hash_probe s ph key (HASH_INTO_TABLE (unat ph)) 0"

subsection \<open>\<^verbatim>\<open>invalidate_search_log\<close>\<close>

text \<open>
  The binary search over the second words of the search log, with \<^verbatim>\<open>int64_t\<close> bounds
  starting at \<open>0\<close> and \<open>SEARCH_INDEX_ENTRIES\<close>. A probe at index
  \<open>SEARCH_INDEX_ENTRIES\<close> lies past the end of the log; the model stops there with
  \<open>None\<close>.
\<close>

function invalidate_loop :: "shard \<Rightarrow> uint32 \<Rightarrow> uint32 \<Rightarrow> int \<Rightarrow> int \<Rightarrow> shard option" where
  "invalidate_loop s to_invalidate invalidate_with low high =
     (if low \<le> high then
        (if low + (high - low) div 2 < 0 \<or> int SEARCH_INDEX_ENTRIES \<le> low + (high - low) div 2
         then None
         else if (ucast (m_search_log s (nat (low + (high - low) div 2) * 2 + 1) AND 0xffffffff) :: uint32) = 0
                 \<or> (ucast (m_search_log s (nat (low + (high - low) div 2) * 2 + 1) AND 0xffffffff) :: uint32) > to_invalidate
         then invalidate_loop s to_invalidate invalidate_with low (low + (high - low) div 2 - 1)
         else if (ucast (m_search_log s (nat (low + (high - low) div 2) * 2 + 1) AND 0xffffffff) :: uint32) < to_invalidate
         then invalidate_loop s to_invalidate invalidate_with (low + (high - low) div 2 + 1) high
         else Some (s\<lparr>m_search_log := (m_search_log s)
                        (nat (low + (high - low) div 2) * 2 + 1 :=
                           push_bit 32 (ucast invalidate_with) OR ucast to_invalidate)\<rparr>))
      else Some s)"
  by pat_completeness auto
termination
  by (relation "measure (\<lambda>(s, ti, iw, low, high). nat (high - low + 1))") auto

declare invalidate_loop.simps [simp del]

definition invalidate_search_log :: "shard \<Rightarrow> uint32 \<Rightarrow> uint32 \<Rightarrow> shard option" where
  "invalidate_search_log s to_invalidate invalidate_with =
     invalidate_loop s to_invalidate invalidate_with 0 (int SEARCH_INDEX_ENTRIES)"

subsection \<open>\<^verbatim>\<open>shard::get\<close>, \<^verbatim>\<open>shard::put\<close>, \<^verbatim>\<open>shard::del\<close>\<close>

text \<open>
  The results are \<open>None\<close> when an assertion aborts the call. \<open>shard_get\<close> takes the
  contents of its two out-parameters and returns them, updated on \<open>SUCCESS\<close>.
\<close>

definition shard_get ::
  "shard \<Rightarrow> uint32 \<Rightarrow> buffer \<Rightarrow> buffer list \<times> uint64 \<Rightarrow> (returncode \<times> buffer list \<times> uint64) option" where
  "shard_get s ph key out =
     (case hash_lookup s ph key of
        None \<Rightarrow> None
      | Some (table_entry, table_value) \<Rightarrow>
          (let table_offset = (ucast (drop_bit 32 table_value) :: uint32)
           in if table_offset = 0 \<or> table_offset \<ge> HASH_OFFSET_INVALID then Some (NOTFOUND, out)
              else
                (case data_version s table_offset of
                   None \<Rightarrow> None
                 | Some version \<Rightarrow>
                     (case data_value s table_offset (length key) of
                        None \<Rightarrow> None
                      | Some val \<Rightarrow> Some (SUCCESS, val, version)))))"

text \<open>The bytes that \<^verbatim>\<open>put\<close> packs, in the order of its \<^verbatim>\<open>memmove\<close> calls.\<close>

definition pack_record :: "buffer \<Rightarrow> buffer list \<Rightarrow> uint64 \<Rightarrow> uint8 list" where
  "pack_record key val version =
     le_bytes 8 version
     @ le_bytes 4 (of_nat (length key) :: uint32)
     @ key
     @ le_bytes 2 (of_nat (length val) :: uint16)
     @ concat (map (\<lambda>v. le_bytes 4 (of_nat (length v) :: uint32) @ v) val)"

definition shard_async :: "shard \<Rightarrow> shard" where
  "shard_async s = s\<lparr>msync_async_calls := msync_async_calls s + 1\<rparr>"

definition shard_put ::
  "shard \<Rightarrow> uint32 \<Rightarrow> uint32 \<Rightarrow> buffer \<Rightarrow> buffer list \<Rightarrow> uint64 \<Rightarrow> (returncode \<times> shard) option" where
  "shard_put s ph sh key val version =
     (if data_size key val + unat (m_data_offset s) > FILE_SIZE then Some (DATAFULL, s)
      else if m_search_offset s = SEARCH_INDEX_ENTRIES then Some (SEARCHFULL, s)
      else
        (case hash_lookup s ph key of
           None \<Rightarrow> None
         | Some (entry, table_value) \<Rightarrow>
             (let table_offset = (ucast (drop_bit 32 table_value) :: uint32);
                  packed = pack_record key val version;
                  s1 = s\<lparr>m_data := write_bytes (m_data s) (unat (m_data_offset s)) packed\<rparr>;
                  curr_offset = m_data_offset s + of_nat (length packed)
              in case (if table_offset < HASH_OFFSET_INVALID
                       then invalidate_search_log s1 table_offset (m_data_offset s)
                       else Some s1) of
                   None \<Rightarrow> None
                 | Some s2 \<Rightarrow>
                     (let s3 = s2\<lparr>m_search_log := (m_search_log s2)
                                  (m_search_offset s * 2 := push_bit 32 (ucast sh) OR ucast ph,
                                   m_search_offset s * 2 + 1 := ucast (m_data_offset s))\<rparr>;
                          s4 = s3\<lparr>m_hash_table := (m_hash_table s3)
                                  (entry := push_bit 32 (ucast (m_data_offset s)) OR ucast ph)\<rparr>;
                          s5 = s4\<lparr>m_search_offset := m_search_offset s + 1\<rparr>;
                          new_data_offset = (curr_offset + 7) AND NOT 7;
                          s6 = (if m_data_offset s AND NOT (push_bit 22 1)
                                   \<noteq> new_data_offset AND NOT (push_bit 22 1)
                                then shard_async s5 else s5)
                      in Some (SUCCESS, s6\<lparr>m_data_offset := new_data_offset\<rparr>)))))"

definition shard_del :: "shard \<Rightarrow> uint32 \<Rightarrow> buffer \<Rightarrow> (returncode \<times> shard) option" where
  "shard_del s ph key =
     (case hash_lookup s ph key of
        None \<Rightarrow> None
      | Some (table_entry, table_value) \<Rightarrow>
          (let table_offset = (ucast (drop_bit 32 table_value) :: uint32)
           in if table_offset = 0 \<or> table_offset \<ge> HASH_OFFSET_INVALID then Some (NOTFOUND, s)
              else if unat (m_data_offset s) + 8 > FILE_SIZE then Some (DATAFULL, s)
              else
                (case invalidate_search_log s table_offset (m_data_offset s) of
                   None \<Rightarrow> None
                 | Some s1 \<Rightarrow>
                     Some (SUCCESS,
                       s1\<lparr>m_data_offset := m_data_offset s + 8,
                          m_hash_table := (m_hash_table s1)
                            (table_entry := push_bit 32 (ucast table_offset)
                                            OR push_bit 32 (ucast HASH_OFFSET_INVALID)
                                            OR ucast ph)\<rparr>))))"

subsection \<open>Sequences of operations and the contents of a slot\<close>

text \<open>A sequence of \<^verbatim>\<open>put\<close> and \<^verbatim>\<open>del\<close> calls on one shard; the run is \<open>None\<close> when a call
  aborts.\<close>

datatype shard_op = ShardPut uint32 uint32 buffer "buffer list" uint64 | ShardDel uint32 buffer

fun shard_apply :: "shard \<Rightarrow> shard_op \<Rightarrow> shard option" where
  "shard_apply s (ShardPut ph sh k v version) = map_option snd (shard_put s ph sh k v version)"
| "shard_apply s (ShardDel ph k) = map_option snd (shard_del s ph k)"

fun shard_run :: "shard \<Rightarrow> shard_op list \<Rightarrow> shard option" where
  "shard_run s [] = Some s"
| "shard_run s (x # xs) = (case shard_apply s x of None \<Rightarrow> None | Some s' \<Rightarrow> shard_run s' xs)"

text \<open>
  The two halves of a slot as \<^verbatim>\<open>hash_lookup\<close> reads them: the offset with the
  tombstone bit masked out, and the test for a slot never assigned. A slot is assigned to
  the pair \<open>(primary_hash, key)\<close> when it is not empty, its hash half is
  \<open>primary_hash\<close> and the record at its offset carries \<open>key\<close>; that is the test by
  which \<^verbatim>\<open>hash_lookup\<close> returns the slot for the pair.
\<close>

definition slot_offset :: "shard \<Rightarrow> nat \<Rightarrow> uint32" where
  "slot_offset s b = (ucast (drop_bit 32 (m_hash_table s b)) :: uint32) AND (HASH_OFFSET_INVALID - 1)"

definition slot_empty :: "shard \<Rightarrow> nat \<Rightarrow> bool" where
  "slot_empty s b \<longleftrightarrow> (ucast (drop_bit 32 (m_hash_table s b)) :: uint32) = 0"

definition slot_holds :: "shard \<Rightarrow> nat \<Rightarrow> uint32 \<Rightarrow> buffer \<Rightarrow> bool" where
  "slot_holds s b ph k \<longleftrightarrow>
     \<not> slot_empty s b
     \<and> (ucast (m_hash_table s b) :: uint32) = ph
     \<and> data_key_size s (slot_offset s b) = Some (length k)
     \<and> read_bytes (m_data s) (data_key_offset (slot_offset s b)) (length k) = k"

text \<open>The key of the record at an offset, as \<^verbatim>\<open>data_key_size\<close> and \<^verbatim>\<open>data_key_offset\<close>
  find it.\<close>

definition stored_key :: "shard \<Rightarrow> uint32 \<Rightarrow> buffer option" where
  "stored_key s offset =
     map_option (\<lambda>n. read_bytes (m_data s) (data_key_offset offset) n) (data_key_size s offset)"

text \<open>
  The invariant of a shard under \<^verbatim>\<open>put\<close> and \<^verbatim>\<open>del\<close>: the data offset is aligned and
  inside the file, and every assigned slot points at an aligned record below the data
  offset whose key \<^verbatim>\<open>hash_lookup\<close> finds in that very slot.
\<close>

definition shard_inv :: "shard \<Rightarrow> bool" where
  "shard_inv s \<longleftrightarrow>
     8 dvd unat (m_data_offset s)
     \<and> INDEX_SEGMENT_SIZE \<le> unat (m_data_offset s)
     \<and> unat (m_data_offset s) \<le> FILE_SIZE
     \<and> (\<forall>b < HASH_TABLE_ENTRIES. \<not> slot_empty s b \<longrightarrow>
          8 dvd unat (slot_offset s b)
          \<and> INDEX_SEGMENT_SIZE \<le> unat (slot_offset s b)
          \<and> (\<exists>k. stored_key s (slot_offset s b) = Some k
                 \<and> unat (slot_offset s b) + 12 + length k \<le> unat (m_data_offset s)
                 \<and> hash_lookup s (ucast (m_hash_table s b)) k = Some (b, m_hash_table s b)))"

subsection \<open>\<^verbatim>\<open>shard::stale_space\<close>\<close>

text \<open>
  The scan \<^verbatim>\<open>for (i = 1; i < SEARCH_INDEX_ENTRIES; ++i)\<close> with its \<^verbatim>\<open>break\<close>, on the
  state \<open>(i, start, end, stale_data, stale_num)\<close>. The difference \<^verbatim>\<open>end - start\<close> is
  taken in \<^verbatim>\<open>uint32_t\<close> and added to a \<^verbatim>\<open>size_t\<close>.
\<close>

function stale_loop ::
  "shard \<Rightarrow> nat \<Rightarrow> uint32 \<Rightarrow> uint32 \<Rightarrow> nat \<Rightarrow> nat \<Rightarrow> nat \<times> uint32 \<times> uint32 \<times> nat \<times> nat" where
  "stale_loop s i start end stale_data stale_num =
     (if i < SEARCH_INDEX_ENTRIES then
        (if (ucast (m_search_log s (2 * i + 1)) :: uint32) = 0
         then (i, start, m_data_offset s, stale_data, stale_num)
         else if (ucast (drop_bit 32 (m_search_log s (2 * i + 1))) :: uint32) > 0
         then stale_loop s (i + 1) (ucast (m_search_log s (2 * i + 1)))
                (ucast (m_search_log s (2 * i + 1)))
                (stale_data + unat ((ucast (m_search_log s (2 * i + 1)) :: uint32) - start))
                (stale_num + 1)
         else stale_loop s (i + 1) (ucast (m_search_log s (2 * i + 1)))
                (ucast (m_search_log s (2 * i + 1))) stale_data stale_num)
      else (i, start, end, stale_data, stale_num))"
  by pat_completeness auto
termination
  by (relation "measure (\<lambda>(s, i, start, end, sd, sn). SEARCH_INDEX_ENTRIES - i)") auto

declare stale_loop.simps [simp del]

text \<open>
  The two totals that the function turns into percentages. (\<open>end\<close> is uninitialised
  before the loop; it is assigned before every use, so its initial value, here \<open>0\<close>,
  is never read.)
\<close>

definition stale_totals :: "shard \<Rightarrow> nat \<times> nat" where
  "stale_totals s =
     (case stale_loop s 1 (ucast (m_search_log s 1)) 0 0 0 of
        (i, start, end, stale_data, stale_num) \<Rightarrow>
          (let end = (if i = SEARCH_INDEX_ENTRIES then m_data_offset s else end)
           in (stale_data + unat (end - start),
               stale_num + (if end - start \<noteq> 0 then 1 else 0))))"

text \<open>
  The percentages are computed in \<^verbatim>\<open>double\<close> and the larger one is converted to
  \<^verbatim>\<open>int\<close>. Both quotients are of integers below \<open>2 ^ 53\<close> whenever the offsets of the
  log lie within the file, and the conversion truncates, so the result is the larger of
  the two integer quotients.
\<close>

definition stale_space :: "shard \<Rightarrow> int" where
  "stale_space s =
     (case stale_totals s of
        (stale_data, stale_num) \<Rightarrow>
          int (max (100 * stale_data div DATA_SEGMENT_SIZE)
                   (100 * stale_num div SEARCH_INDEX_ENTRIES)))"

text \<open>
  The specification's reading of the same quantity: an entry of the search log is stale
  when the upper (invalidator) half of its second word is nonzero; its record reaches
  from its own \<open>data_offset\<close> to that of its successor, or to \<open>m_data_offset\<close> for the
  last entry, as in \<^verbatim>\<open>shard::copy_to\<close>.
\<close>

definition entry_stale :: "shard \<Rightarrow> nat \<Rightarrow> bool" where
  "entry_stale s i \<longleftrightarrow> (ucast (drop_bit 32 (m_search_log s (2 * i + 1))) :: uint32) \<noteq> 0"

definition record_length :: "shard \<Rightarrow> nat \<Rightarrow> nat" where
  "record_length s i =
     (let entry_start = (ucast (m_search_log s (2 * i + 1)) :: uint32);
          entry_end = (if i < SEARCH_INDEX_ENTRIES - 1 \<and> m_search_log s (2 * (i + 1) + 1) \<noteq> 0
                       then (ucast (m_search_log s (2 * (i + 1) + 1)) :: uint32)
                       else m_data_offset s)
      in unat (entry_end - entry_start))"

definition stale_entries :: "shard \<Rightarrow> nat list" where
  "stale_entries s = filter (entry_stale s) [0..<SEARCH_INDEX_ENTRIES]"

definition stale_space_spec :: "shard \<Rightarrow> int" where
  "stale_space_spec s =
     int (max (100 * sum_list (map (record_length s) (stale_entries s)) div DATA_SEGMENT_SIZE)
              (100 * length (stale_entries s) div SEARCH_INDEX_ENTRIES))"

section \<open>The disk (disk.cc)\<close>

text \<open>
  Modelled from the spec: log_entry.h and shard_vector.h are not among the sources. A
  WAL entry is \<open>(coord, key, value, version)\<close>; the fields are named \<open>entry_coord\<close>,
  \<open>entry_key\<close>, \<open>entry_value\<close> and \<open>entry_version\<close> here. The constructor for a
  delete takes the coordinate and the key only and leaves an empty value and version 0.
  A shard vector is an ordered sequence of pairs of a coordinate and a shard.
\<close>

record log_entry =
  entry_coord :: coordinate
  entry_key :: buffer
  entry_value :: "buffer list"
  entry_version :: uint64

definition log_entry_put :: "coordinate \<Rightarrow> buffer \<Rightarrow> buffer list \<Rightarrow> uint64 \<Rightarrow> log_entry" where
  "log_entry_put c k v ver =
     \<lparr>entry_coord = c, entry_key = k, entry_value = v, entry_version = ver\<rparr>"

definition log_entry_del :: "coordinate \<Rightarrow> buffer \<Rightarrow> log_entry" where
  "log_entry_del c k = \<lparr>entry_coord = c, entry_key = k, entry_value = [], entry_version = 0\<rparr>"

type_synonym shard_vector = "(coordinate \<times> shard) list"

text \<open>
  The disk object. \<open>m_log\<close> is the WAL in append order (oldest first); \<open>m_dir\<close> is the
  directory behind \<^verbatim>\<open>m_base\<close>, from file name to the shard stored under it;
  \<open>m_spare_shards\<close> is the FIFO of preallocated shards with their file names.
\<close>

record disk =
  m_arity :: uint16
  m_shards :: shard_vector
  m_log :: "log_entry list"
  m_dir :: "string \<rightharpoonup> shard"
  m_spare_shards :: "(string \<times> shard) list"
  m_spare_shard_counter :: nat

subsection \<open>Hashing and routing\<close>

text \<open>
  \<^verbatim>\<open>CityHash64\<close> (hashing.h) and \<^verbatim>\<open>lower_interlace\<close> (bithacks.h) are external to the
  disk; the functions below take them as a parameter.
\<close>

record hashing =
  CityHash64 :: "buffer \<Rightarrow> uint64"
  CityHash64_all :: "buffer list \<Rightarrow> uint64 list"
  lower_interlace :: "uint64 list \<Rightarrow> uint64"

definition get_coordinate :: "hashing \<Rightarrow> buffer \<Rightarrow> coordinate" where
  "get_coordinate hf k =
     (let key_hash = CityHash64 hf k
      in mk_coordinate UINT32_MAX (ucast key_hash) 0 0)"

definition get_coordinate_value :: "hashing \<Rightarrow> buffer \<Rightarrow> buffer list \<Rightarrow> coordinate" where
  "get_coordinate_value hf k v =
     (let key_hash = CityHash64 hf k;
          value_hashes = CityHash64_all hf v;
          value_hash = lower_interlace hf value_hashes
      in mk_coordinate UINT32_MAX (ucast key_hash) UINT32_MAX (ucast value_hash))"

subsection \<open>\<^verbatim>\<open>disk::get\<close>\<close>

text \<open>
  The walk over the shards, on \<open>(shard_res, value, version)\<close>: shards whose region
  does not primary-contain the coordinate are skipped, the first \<open>SUCCESS\<close> ends the
  walk.
\<close>

fun shard_walk ::
  "shard_vector \<Rightarrow> coordinate \<Rightarrow> buffer \<Rightarrow> returncode \<times> buffer list \<times> uint64
     \<Rightarrow> (returncode \<times> buffer list \<times> uint64) option" where
  "shard_walk [] c k (shard_res, out) = Some (shard_res, out)"
| "shard_walk ((ci, si) # shards) c k (shard_res, out) =
     (if \<not> primary_contains ci c then shard_walk shards c k (shard_res, out)
      else
        (case shard_get si (primary_hash c) k out of
           None \<Rightarrow> None
         | Some (r, out') \<Rightarrow>
             if r = SUCCESS then Some (r, out') else shard_walk shards c k (r, out')))"

text \<open>
  The body of the loop over the WAL, on \<open>(found, wal_res, value, version)\<close>; a failed
  assertion is \<open>None\<close>.
\<close>

definition wal_step ::
  "coordinate \<Rightarrow> buffer \<Rightarrow> bool \<times> returncode \<times> buffer list \<times> uint64 \<Rightarrow> log_entry
     \<Rightarrow> (bool \<times> returncode \<times> buffer list \<times> uint64) option" where
  "wal_step c k st e =
     (case st of (found, wal_res, val, version) \<Rightarrow>
        if primary_contains (entry_coord e) c \<and> entry_key e = k then
          (if secondary_mask (entry_coord e) = UINT32_MAX then
             (if primary_mask (entry_coord e) = UINT32_MAX
                 \<and> secondary_mask (entry_coord e) = UINT32_MAX
              then Some (True, SUCCESS, entry_value e, entry_version e)
              else None)
           else
             (if primary_mask (entry_coord e) = UINT32_MAX \<and> secondary_mask (entry_coord e) = 0
              then Some (True, NOTFOUND, val, version)
              else None))
        else Some st)"

fun wal_scan ::
  "log_entry list \<Rightarrow> coordinate \<Rightarrow> buffer \<Rightarrow> bool \<times> returncode \<times> buffer list \<times> uint64
     \<Rightarrow> (bool \<times> returncode \<times> buffer list \<times> uint64) option" where
  "wal_scan [] c k st = Some st"
| "wal_scan (e # es) c k st =
     (case wal_step c k st e of None \<Rightarrow> None | Some st' \<Rightarrow> wal_scan es c k st')"

definition disk_get ::
  "hashing \<Rightarrow> disk \<Rightarrow> buffer \<Rightarrow> buffer list \<times> uint64 \<Rightarrow> (returncode \<times> buffer list \<times> uint64) option" where
  "disk_get hf d k out =
     (let c = get_coordinate hf k
      in case shard_walk (m_shards d) c k (NOTFOUND, out) of
           None \<Rightarrow> None
         | Some (shard_res, out1) \<Rightarrow>
             (case wal_scan (m_log d) c k (False, NOTFOUND, out1) of
                None \<Rightarrow> None
              | Some (found, wal_res, out2) \<Rightarrow>
                  Some (if found then wal_res else shard_res, out2)))"

subsection \<open>\<^verbatim>\<open>disk::put\<close> and \<^verbatim>\<open>disk::del\<close>\<close>

definition disk_put :: "hashing \<Rightarrow> disk \<Rightarrow> buffer \<Rightarrow> buffer list \<Rightarrow> uint64 \<Rightarrow> returncode \<times> disk" where
  "disk_put hf d k v version =
     (if length v + 1 \<noteq> unat (m_arity d) then (WRONGARITY, d)
      else
        (let c = get_coordinate_value hf k v
         in (SUCCESS, d\<lparr>m_log := m_log d @ [log_entry_put c k v version]\<rparr>)))"

definition disk_del :: "hashing \<Rightarrow> disk \<Rightarrow> buffer \<Rightarrow> returncode \<times> disk" where
  "disk_del hf d k =
     (let c = get_coordinate hf k
      in (SUCCESS, d\<lparr>m_log := m_log d @ [log_entry_del c k]\<rparr>))"

text \<open>Sequences of \<open>put\<close> and \<open>del\<close> calls on a disk.\<close>

datatype disk_op = Put buffer "buffer list" uint64 | Del buffer

fun op_key :: "disk_op \<Rightarrow> buffer" where
  "op_key (Put k v version) = k"
| "op_key (Del k) = k"

fun disk_apply :: "hashing \<Rightarrow> disk \<Rightarrow> disk_op \<Rightarrow> disk" where
  "disk_apply hf d (Put k v version) = snd (disk_put hf d k v version)"
| "disk_apply hf d (Del k) = snd (disk_del hf d k)"

definition disk_run :: "hashing \<Rightarrow> disk \<Rightarrow> disk_op list \<Rightarrow> disk" where
  "disk_run hf d ops = foldl (disk_apply hf) d ops"

text \<open>The entries that \<open>put\<close> and \<open>del\<close> build: the primary mask is full and the
  secondary mask is full (a put) or empty (a delete).\<close>

definition wal_entry_ok :: "log_entry \<Rightarrow> bool" where
  "wal_entry_ok e \<longleftrightarrow>
     primary_mask (entry_coord e) = UINT32_MAX
     \<and> (secondary_mask (entry_coord e) = UINT32_MAX \<or> secondary_mask (entry_coord e) = 0)"

definition wal_matching :: "log_entry list \<Rightarrow> coordinate \<Rightarrow> buffer \<Rightarrow> log_entry list" where
  "wal_matching es c k = filter (\<lambda>e. primary_contains (entry_coord e) c \<and> entry_key e = k) es"

definition example_hashing :: hashing where
  "example_hashing =
     \<lparr>CityHash64 = (\<lambda>k. of_nat (length k) + 1),
      CityHash64_all = map (\<lambda>a. of_nat (length a)),
      lower_interlace = (\<lambda>hs. of_nat (length hs))\<rparr>"

subsection \<open>Shard files\<close>

text \<open>
  \<^verbatim>\<open>std::hex << std::setfill('0') << std::setw(16)\<close> on a \<^verbatim>\<open>uint32_t\<close>: sixteen
  lowercase hexadecimal digits, the value padded with zeros on the left.
\<close>

definition hex_digit :: "nat \<Rightarrow> char" where
  "hex_digit n = ''0123456789abcdef'' ! (n mod 16)"

definition hex16 :: "uint32 \<Rightarrow> string" where
  "hex16 w = map (\<lambda>i. hex_digit (unat w div 16 ^ (15 - i))) [0..<16]"

definition shard_filename :: "coordinate \<Rightarrow> string" where
  "shard_filename c =
     hex16 (primary_mask c) @ ''-'' @ hex16 (primary_hash c) @ ''-''
     @ hex16 (secondary_mask c) @ ''-'' @ hex16 (secondary_hash c)"

definition shard_tmp_filename :: "coordinate \<Rightarrow> string" where
  "shard_tmp_filename c =
     hex16 (primary_mask c) @ ''-'' @ hex16 (primary_hash c) @ ''-''
     @ hex16 (secondary_mask c) @ ''-'' @ hex16 (secondary_hash c) @ ''-tmp''"

text \<open>
  The directory maps a file name to the shard the file was created for. \<^verbatim>\<open>renameat\<close>
  fails when the old name does not exist and replaces the file under the new name
  otherwise; \<^verbatim>\<open>unlink\<close> fails when the name does not exist. Other failures of the
  operating system are arguments of the functions that can meet them: \<open>create_ok\<close> says
  that \<^verbatim>\<open>shard::create\<close> can create, fill and sync its file.
\<close>

datatype po6_error = Po6_error

definition renameat :: "(string \<rightharpoonup> shard) \<Rightarrow> string \<Rightarrow> string \<Rightarrow> (string \<rightharpoonup> shard) option" where
  "renameat dir old new =
     (case dir old of
        None \<Rightarrow> None
      | Some f \<Rightarrow> Some (if old = new then dir else (dir(old := None))(new \<mapsto> f)))"

definition unlink :: "(string \<rightharpoonup> shard) \<Rightarrow> string \<Rightarrow> (string \<rightharpoonup> shard) option" where
  "unlink dir name = (case dir name of None \<Rightarrow> None | Some f \<Rightarrow> Some (dir(name := None)))"

text \<open>
  \<^verbatim>\<open>shard::create(base, filename)\<close>: removes an old file of that name, then creates
  the new one. An exception carries the state in which it was thrown.
\<close>

definition shard_create_file ::
  "bool \<Rightarrow> (string \<rightharpoonup> shard) \<Rightarrow> string
     \<Rightarrow> po6_error \<times> (string \<rightharpoonup> shard) + shard \<times> (string \<rightharpoonup> shard)" where
  "shard_create_file create_ok dir filename =
     (if create_ok then Inr (shard_create, dir(filename \<mapsto> shard_create))
      else Inl (Po6_error, dir(filename := None)))"

definition create_shard ::
  "bool \<Rightarrow> disk \<Rightarrow> coordinate \<Rightarrow> po6_error \<times> disk + shard \<times> disk" where
  "create_shard create_ok d c =
     (let path = shard_filename c
      in case m_spare_shards d of
           (spareshard_fn, spareshard) # rest \<Rightarrow>
             (case renameat (m_dir d) spareshard_fn (shard_filename c) of
                None \<Rightarrow> Inl (Po6_error, d\<lparr>m_spare_shards := rest\<rparr>)
              | Some dir' \<Rightarrow> Inr (spareshard, d\<lparr>m_spare_shards := rest, m_dir := dir'\<rparr>))
         | [] \<Rightarrow>
             (case shard_create_file create_ok (m_dir d) path of
                Inl (e, dir') \<Rightarrow> Inl (e, d\<lparr>m_dir := dir'\<rparr>)
              | Inr (newshard, dir') \<Rightarrow> Inr (newshard, d\<lparr>m_dir := dir'\<rparr>)))"

definition create_tmp_shard ::
  "bool \<Rightarrow> disk \<Rightarrow> coordinate \<Rightarrow> po6_error \<times> disk + shard \<times> disk" where
  "create_tmp_shard create_ok d c =
     (let path = shard_tmp_filename c
      in case m_spare_shards d of
           (spareshard_fn, spareshard) # rest \<Rightarrow>
             (case renameat (m_dir d) spareshard_fn (shard_filename c) of
                None \<Rightarrow> Inl (Po6_error, d\<lparr>m_spare_shards := rest\<rparr>)
              | Some dir' \<Rightarrow> Inr (spareshard, d\<lparr>m_spare_shards := rest, m_dir := dir'\<rparr>))
         | [] \<Rightarrow>
             (case shard_create_file create_ok (m_dir d) path of
                Inl (e, dir') \<Rightarrow> Inl (e, d\<lparr>m_dir := dir'\<rparr>)
              | Inr (newshard, dir') \<Rightarrow> Inr (newshard, d\<lparr>m_dir := dir'\<rparr>)))"

text \<open>
  \<^verbatim>\<open>drop_shard\<close> and \<^verbatim>\<open>drop_tmp_shard\<close> call \<^verbatim>\<open>unlink\<close> with the bare file name,
  which the operating system resolves against the working directory of the process, not
  against \<^verbatim>\<open>m_base\<close>. The working directory is either the directory of the disk or
  another directory, given by the names of its files.
\<close>

datatype working_directory = Base_directory | Other_directory "string set"

definition unlink_cwd ::
  "working_directory \<Rightarrow> disk \<Rightarrow> string \<Rightarrow> (working_directory \<times> disk) option" where
  "unlink_cwd wd d name =
     (case wd of
        Base_directory \<Rightarrow>
          (case unlink (m_dir d) name of
             None \<Rightarrow> None
           | Some dir' \<Rightarrow> Some (Base_directory, d\<lparr>m_dir := dir'\<rparr>))
      | Other_directory names \<Rightarrow>
          (if name \<in> names then Some (Other_directory (names - {name}), d) else None))"

definition drop_shard ::
  "working_directory \<Rightarrow> disk \<Rightarrow> coordinate \<Rightarrow> returncode \<times> working_directory \<times> disk" where
  "drop_shard wd d c =
     (case unlink_cwd wd d (shard_filename c) of
        None \<Rightarrow> (DROPFAILED, wd, d)
      | Some (wd', d') \<Rightarrow> (SUCCESS, wd', d'))"

definition drop_tmp_shard ::
  "working_directory \<Rightarrow> disk \<Rightarrow> coordinate \<Rightarrow> returncode \<times> working_directory \<times> disk" where
  "drop_tmp_shard wd d c =
     (case unlink_cwd wd d (shard_tmp_filename c) of
        None \<Rightarrow> (DROPFAILED, wd, d)
      | Some (wd', d') \<Rightarrow> (SUCCESS, wd', d'))"

subsection \<open>The constructor\<close>

text \<open>
  \<open>mkdir_ok\<close>: \<^verbatim>\<open>mkdir\<close> succeeds or the directory exists; \<open>open_ok\<close>: the directory can
  be opened; \<open>files\<close>: what the directory holds then.
\<close>

definition disk_new ::
  "bool \<Rightarrow> bool \<Rightarrow> bool \<Rightarrow> (string \<rightharpoonup> shard) \<Rightarrow> uint16 \<Rightarrow> po6_error + disk" where
  "disk_new mkdir_ok open_ok create_ok files arity =
     (if \<not> mkdir_ok then Inl Po6_error
      else if \<not> open_ok then Inl Po6_error
      else
        (let d = \<lparr>m_arity = arity, m_shards = [], m_log = [], m_dir = files,
                  m_spare_shards = [], m_spare_shard_counter = 0\<rparr>;
             start = mk_coordinate 0 0 0 0
         in case create_shard create_ok d start of
              Inl (e, d') \<Rightarrow> Inl e
            | Inr (s, d') \<Rightarrow> Inr (d'\<lparr>m_shards := [(start, s)]\<rparr>)))"

subsection \<open>\<^verbatim>\<open>shard::copy_to\<close> and \<^verbatim>\<open>disk::clean_shard\<close>\<close>

text \<open>The second \<^verbatim>\<open>hash_lookup\<close>, which looks for a slot whose offset half is zero.\<close>

function hash_probe_empty :: "shard \<Rightarrow> nat \<Rightarrow> nat \<Rightarrow> nat option" where
  "hash_probe_empty s start off =
     (if off < HASH_TABLE_ENTRIES then
        (if (ucast (drop_bit 32 (m_hash_table s (HASH_INTO_TABLE (start + off)))) :: uint32) = 0
         then Some (HASH_INTO_TABLE (start + off))
         else hash_probe_empty s start (off + 1))
      else None)"
  by pat_completeness auto
termination
  by (relation "measure (\<lambda>(s, start, off). HASH_TABLE_ENTRIES - off)") auto

declare hash_probe_empty.simps [simp del]

definition hash_lookup_empty :: "shard \<Rightarrow> uint32 \<Rightarrow> nat option" where
  "hash_lookup_empty s ph = hash_probe_empty s (HASH_INTO_TABLE (unat ph)) 0"

text \<open>One iteration of the loop of \<^verbatim>\<open>copy_to\<close> over the entries of the source's search
  log: it goes on (with the destination as it is or with the entry copied), leaves the
  loop, or fails an assertion.\<close>

datatype 'a loop_step = Continue 'a | Break 'a | Abort

definition copy_entry :: "shard \<Rightarrow> coordinate \<Rightarrow> shard \<Rightarrow> nat \<Rightarrow> shard loop_step" where
  "copy_entry src c dst ent =
     (if (ucast (drop_bit 32 (m_search_log src (ent * 2 + 1))) :: uint32) \<noteq> 0 then Continue dst
      else
        (let ph = (ucast (m_search_log src (ent * 2)) :: uint32);
             sh = (ucast (drop_bit 32 (m_search_log src (ent * 2))) :: uint32)
         in if \<not> intersects c (mk_coordinate UINT32_MAX ph UINT32_MAX sh) then Continue dst
            else
              (let entry_start = (ucast (m_search_log src (ent * 2 + 1)) :: uint32)
               in if entry_start = 0 then Break dst
                  else
                    (let entry_end =
                           (if ent < SEARCH_INDEX_ENTRIES - 1 \<and> m_search_log src ((ent + 1) * 2 + 1) \<noteq> 0
                            then (ucast (m_search_log src ((ent + 1) * 2 + 1)) :: uint32)
                            else m_data_offset src)
                     in if \<not> (entry_start \<le> entry_end \<and> unat entry_end \<le> FILE_SIZE
                               \<and> unat (m_data_offset dst + (entry_end - entry_start)) \<le> FILE_SIZE)
                        then Abort
                        else
                          (let d1 = dst\<lparr>m_data := write_bytes (m_data dst) (unat (m_data_offset dst))
                                        (read_bytes (m_data src) (unat entry_start)
                                           (unat (entry_end - entry_start)))\<rparr>;
                               d2 = d1\<lparr>m_search_log := (m_search_log d1)
                                        (m_search_offset dst * 2 := push_bit 32 (ucast sh) OR ucast ph,
                                         m_search_offset dst * 2 + 1 := ucast (m_data_offset dst))\<rparr>
                           in case hash_lookup_empty d2 ph of
                                None \<Rightarrow> Abort
                              | Some bucket \<Rightarrow>
                                  Continue
                                    (d2\<lparr>m_hash_table := (m_hash_table d2)
                                          (bucket := push_bit 32 (ucast (m_data_offset dst)) OR ucast ph),
                                        m_search_offset := m_search_offset dst + 1,
                                        m_data_offset :=
                                          (m_data_offset dst + (entry_end - entry_start) + 7)
                                          AND NOT 7\<rparr>))))))"

function copy_loop :: "shard \<Rightarrow> coordinate \<Rightarrow> shard \<Rightarrow> nat \<Rightarrow> shard option" where
  "copy_loop src c dst ent =
     (if ent < SEARCH_INDEX_ENTRIES then
        (case copy_entry src c dst ent of
           Abort \<Rightarrow> None
         | Break dst' \<Rightarrow> Some dst'
         | Continue dst' \<Rightarrow> copy_loop src c dst' (ent + 1))
      else Some dst)"
  by pat_completeness auto
termination
  by (relation "measure (\<lambda>(src, c, dst, ent). SEARCH_INDEX_ENTRIES - ent)") auto

declare copy_loop.simps [simp del]

definition copy_to :: "shard \<Rightarrow> coordinate \<Rightarrow> shard \<Rightarrow> shard option" where
  "copy_to src c dst =
     copy_loop src c
       (dst\<lparr>m_hash_table := (\<lambda>i. if i < HASH_TABLE_ENTRIES then 0 else m_hash_table dst i),
            m_search_log := (\<lambda>i. if i < 2 * SEARCH_INDEX_ENTRIES then 0 else m_search_log dst i),
            m_data_offset := of_nat INDEX_SEGMENT_SIZE,
            m_search_offset := 0\<rparr>) 0"

text \<open>Modelled from the spec: \<^verbatim>\<open>shard_vector::replace(i, new_shard)\<close> (shard_vector.h is
  not among the sources) returns a vector with identical coordinates and the shard at
  \<open>i\<close> swapped.\<close>

definition replace :: "shard_vector \<Rightarrow> nat \<Rightarrow> shard \<Rightarrow> shard_vector" where
  "replace v i s = v[i := (fst (v ! i), s)]"

text \<open>
  \<open>clean_shard\<close>: \<open>None\<close> when an assertion fails, \<open>Inl\<close> when \<open>create_tmp_shard\<close>
  throws. The guard that calls \<open>drop_tmp_shard\<close> runs on the \<open>DROPFAILED\<close> return.
\<close>

definition clean_shard ::
  "bool \<Rightarrow> working_directory \<Rightarrow> disk \<Rightarrow> nat
     \<Rightarrow> (po6_error \<times> working_directory \<times> disk
         + returncode \<times> working_directory \<times> disk) option" where
  "clean_shard create_ok wd d shard_num =
     (let c = fst (m_shards d ! shard_num);
          s = snd (m_shards d ! shard_num)
      in case create_tmp_shard create_ok d c of
           Inl (e, d1) \<Rightarrow> Some (Inl (e, wd, d1))
         | Inr (newshard, d1) \<Rightarrow>
             (case copy_to s c newshard of
                None \<Rightarrow> None
              | Some newshard' \<Rightarrow>
                  (let newshard_vector = replace (m_shards d1) shard_num newshard'
                   in case renameat (m_dir d1) (shard_tmp_filename c) (shard_filename c) of
                        None \<Rightarrow> Some (Inr (DROPFAILED, snd (drop_tmp_shard wd d1 c)))
                      | Some dir' \<Rightarrow>
                          Some (Inr (SUCCESS, wd,
                                     d1\<lparr>m_dir := dir', m_shards := newshard_vector\<rparr>)))))"

definition disk_with_spare :: disk where
  "disk_with_spare =
     \<lparr>m_arity = 2, m_shards = [(mk_coordinate 0 0 0 0, shard_create)], m_log = [],
      m_dir = [shard_filename (mk_coordinate 0 0 0 0) \<mapsto> shard_create, ''spare-0'' \<mapsto> shard_create],
      m_spare_shards = [(''spare-0'', shard_create)], m_spare_shard_counter = 1\<rparr>"


section \<open>Choosing the bit to split on (disk.cc, \<^verbatim>\<open>which_to_split\<close>)\<close>

text \<open>
  The body of the \<^verbatim>\<open>for (int i = 1; i < 32; ++i)\<close> loop, on the loop state
  \<open>(diff, pos)\<close>. The arrays \<^verbatim>\<open>zeros\<close> and \<^verbatim>\<open>ones\<close> are read by index; the
  subtraction and the negation are those of 32-bit two's complement.
\<close>

definition split_step ::
  "uint32 \<Rightarrow> (nat \<Rightarrow> int32) \<Rightarrow> (nat \<Rightarrow> int32) \<Rightarrow> int32 \<times> nat \<Rightarrow> nat \<Rightarrow> int32 \<times> nat" where
  "split_step msk zeros ones st i =
     (case st of (diff, pos) \<Rightarrow>
        if msk AND push_bit i 1 = 0 then
          (let tmpdiff = ones i - zeros i;
               tmpdiff = (if tmpdiff <s 0 then - tmpdiff else tmpdiff)
           in if tmpdiff <s diff then (tmpdiff, i) else (diff, pos))
        else (diff, pos))"

definition which_to_split :: "uint32 \<Rightarrow> (nat \<Rightarrow> int32) \<Rightarrow> (nat \<Rightarrow> int32) \<Rightarrow> nat" where
  "which_to_split msk zeros ones =
     (let diff = INT32_MAX;
          diff = (if diff <s 0 then - diff else diff)
      in snd (foldl (split_step msk zeros ones) (diff, 0) [1..<32]))"

text \<open>The words of the specification: position \<open>b\<close> is unmasked when
  \<^verbatim>\<open>(mask >> b) & 1 == 0\<close>, and the quantity minimised is \<open>|ones[b] - zeros[b]|\<close>.\<close>

definition unmasked :: "uint32 \<Rightarrow> nat \<Rightarrow> bool" where
  "unmasked msk b \<longleftrightarrow> drop_bit b msk AND 1 = 0"

definition imbalance :: "(nat \<Rightarrow> int32) \<Rightarrow> (nat \<Rightarrow> int32) \<Rightarrow> nat \<Rightarrow> int" where
  "imbalance zeros ones b = \<bar>sint (ones b) - sint (zeros b)\<bar>"

definition split_candidate :: "uint32 \<Rightarrow> nat \<Rightarrow> nat \<Rightarrow> bool" where
  "split_candidate msk n b \<longleftrightarrow> 1 \<le> b \<and> b < n \<and> unmasked msk b"

text \<open>An array literal: the first elements are those of the list, the rest are zero.\<close>

definition counts_of :: "int32 list \<Rightarrow> nat \<Rightarrow> int32" where
  "counts_of xs i = (if i < length xs then xs ! i else 0)"

text \<open>The loop invariant of \<open>which_to_split\<close> after the positions below \<open>n\<close>.\<close>

definition split_inv ::
  "uint32 \<Rightarrow> (nat \<Rightarrow> int32) \<Rightarrow> (nat \<Rightarrow> int32) \<Rightarrow> nat \<Rightarrow> int32 \<times> nat \<Rightarrow> bool" where
  "split_inv msk zeros ones n st =
     (case st of (diff, pos) \<Rightarrow>
        if \<exists>b. split_candidate msk n b
        then split_candidate msk n pos \<and> sint diff = imbalance zeros ones pos
             \<and> (\<forall>b. split_candidate msk n b \<longrightarrow>
                    imbalance zeros ones pos \<le> imbalance zeros ones b
                    \<and> (b < pos \<longrightarrow> imbalance zeros ones pos < imbalance zeros ones b))
        else diff = INT32_MAX \<and> pos = 0)"

text \<open>
  Count arrays as \<^verbatim>\<open>split_shard\<close> builds them: \<open>zeros[b]\<close> and \<open>ones[b]\<close> count the
  records of one shard whose hash has bit \<open>b\<close> clear or set, and a shard holds at most
  \<open>SEARCH_INDEX_ENTRIES\<close> records.
\<close>

definition count_arrays :: "(nat \<Rightarrow> int32) \<Rightarrow> (nat \<Rightarrow> int32) \<Rightarrow> bool" where
  "count_arrays zeros ones \<longleftrightarrow>
     (\<forall>b < 32. 0 \<le> sint (zeros b) \<and> 0 \<le> sint (ones b)
        \<and> sint (zeros b) + sint (ones b) \<le> int SEARCH_INDEX_ENTRIES)"

text \<open>The same bounds after \<open>n\<close> records have been counted, for a pair of arrays.\<close>

definition counted :: "nat \<Rightarrow> (nat \<Rightarrow> int32) \<times> (nat \<Rightarrow> int32) \<Rightarrow> bool" where
  "counted n st \<longleftrightarrow>
     (\<forall>b. 0 \<le> sint (fst st b) \<and> 0 \<le> sint (snd st b)
          \<and> sint (fst st b) + sint (snd st b) \<le> int n)"

section \<open>Splitting and full shards (disk.cc)\<close>

text \<open>
  Modelled from the spec: shard_snapshot.h is not among the sources. A snapshot captures
  the current \<open>m_search_offset\<close> and iterates the live entries of the search log in
  append order; \<^verbatim>\<open>split_shard\<close> reads the primary and the secondary hash of each.
\<close>

definition snapshot_hashes :: "shard \<Rightarrow> (uint32 \<times> uint32) list" where
  "snapshot_hashes s =
     map (\<lambda>ent. (ucast (m_search_log s (ent * 2)) :: uint32,
                  ucast (drop_bit 32 (m_search_log s (ent * 2))) :: uint32))
       (filter (\<lambda>ent. (ucast (drop_bit 32 (m_search_log s (ent * 2 + 1))) :: uint32) = 0)
          [0..<m_search_offset s])"

text \<open>
  The inner loop \<^verbatim>\<open>for (uint64_t i = 1, j = 0; i < UINT32_MAX; i <<= 1, ++j)\<close> for one
  record with hash \<open>h\<close>: positions set in the mask are skipped, the others increment
  \<open>ones[j]\<close> or \<open>zeros[j]\<close>. The state is the pair \<open>(zeros, ones)\<close>.
\<close>

definition count_bit ::
  "uint32 \<Rightarrow> uint32 \<Rightarrow> (nat \<Rightarrow> int32) \<times> (nat \<Rightarrow> int32) \<Rightarrow> nat \<Rightarrow> (nat \<Rightarrow> int32) \<times> (nat \<Rightarrow> int32)" where
  "count_bit msk h st j =
     (case st of (zeros, ones) \<Rightarrow>
        if msk AND push_bit j 1 \<noteq> 0 then (zeros, ones)
        else if h AND push_bit j 1 \<noteq> 0 then (zeros, ones(j := ones j + 1))
        else (zeros(j := zeros j + 1), ones))"

definition count_record ::
  "uint32 \<Rightarrow> (nat \<Rightarrow> int32) \<times> (nat \<Rightarrow> int32) \<Rightarrow> uint32 \<Rightarrow> (nat \<Rightarrow> int32) \<times> (nat \<Rightarrow> int32)" where
  "count_record msk st h = foldl (count_bit msk h) st [0..<32]"

text \<open>The first scan: the secondary hashes of all records.\<close>

definition count_secondary :: "coordinate \<Rightarrow> shard \<Rightarrow> (nat \<Rightarrow> int32) \<times> (nat \<Rightarrow> int32)" where
  "count_secondary c s =
     foldl (count_record (secondary_mask c)) (\<lambda>_. 0, \<lambda>_. 0) (map snd (snapshot_hashes s))"

text \<open>
  The second scan: the primary hashes, into the \<open>upper\<close> arrays for the records whose
  secondary hash has the chosen bit and into the \<open>lower\<close> arrays for the others. The
  state is \<open>((zeros_lower, ones_lower), (zeros_upper, ones_upper))\<close>.
\<close>

definition count_primary_record ::
  "uint32 \<Rightarrow> uint32
     \<Rightarrow> ((nat \<Rightarrow> int32) \<times> (nat \<Rightarrow> int32)) \<times> ((nat \<Rightarrow> int32) \<times> (nat \<Rightarrow> int32))
     \<Rightarrow> uint32 \<times> uint32
     \<Rightarrow> ((nat \<Rightarrow> int32) \<times> (nat \<Rightarrow> int32)) \<times> ((nat \<Rightarrow> int32) \<times> (nat \<Rightarrow> int32))" where
  "count_primary_record msk secondary_bit st r =
     (case st of (lower, upper) \<Rightarrow>
        if snd r AND secondary_bit \<noteq> 0 then (lower, count_record msk upper (fst r))
        else (count_record msk lower (fst r), upper))"

definition count_primary ::
  "coordinate \<Rightarrow> uint32 \<Rightarrow> shard
     \<Rightarrow> ((nat \<Rightarrow> int32) \<times> (nat \<Rightarrow> int32)) \<times> ((nat \<Rightarrow> int32) \<times> (nat \<Rightarrow> int32))" where
  "count_primary c secondary_bit s =
     foldl (count_primary_record (primary_mask c) secondary_bit)
       ((\<lambda>_. 0, \<lambda>_. 0), (\<lambda>_. 0, \<lambda>_. 0)) (snapshot_hashes s)"

text \<open>The coordinates of the four new shards, in the order \<open>zero_zero\<close>, \<open>zero_one\<close>,
  \<open>one_zero\<close>, \<open>one_one\<close>.\<close>

definition split_coordinates :: "coordinate \<Rightarrow> shard \<Rightarrow> coordinate list" where
  "split_coordinates c s =
     (let secondary_split = (case count_secondary c s of (zeros, ones) \<Rightarrow>
                               which_to_split (secondary_mask c) zeros ones);
          secondary_bit = (push_bit secondary_split 1 :: uint32);
          counts = count_primary c secondary_bit s;
          primary_lower_split = (case fst counts of (zeros_lower, ones_lower) \<Rightarrow>
                                   which_to_split (primary_mask c) zeros_lower ones_lower);
          primary_lower_bit = (push_bit primary_lower_split 1 :: uint32);
          primary_upper_split = (case snd counts of (zeros_upper, ones_upper) \<Rightarrow>
                                   which_to_split (primary_mask c) zeros_upper ones_upper);
          primary_upper_bit = (push_bit primary_upper_split 1 :: uint32)
      in [mk_coordinate (primary_mask c OR primary_lower_bit) (primary_hash c)
            (secondary_mask c OR secondary_bit) (secondary_hash c),
          mk_coordinate (primary_mask c OR primary_upper_bit) (primary_hash c)
            (secondary_mask c OR secondary_bit) (secondary_hash c OR secondary_bit),
          mk_coordinate (primary_mask c OR primary_lower_bit) (primary_hash c OR primary_lower_bit)
            (secondary_mask c OR secondary_bit) (secondary_hash c),
          mk_coordinate (primary_mask c OR primary_upper_bit) (primary_hash c OR primary_upper_bit)
            (secondary_mask c OR secondary_bit) (secondary_hash c OR secondary_bit)])"

text \<open>
  The body of the \<^verbatim>\<open>try\<close> block up to the fourth \<^verbatim>\<open>copy_to\<close>: for each coordinate in
  turn, \<^verbatim>\<open>create_shard\<close>, a guard that drops the shard, and \<^verbatim>\<open>copy_to\<close>. \<open>oks\<close> says,
  per coordinate, whether \<^verbatim>\<open>shard::create\<close> can make its file. The result is \<open>None\<close>
  when an assertion of \<^verbatim>\<open>copy_to\<close> fails, \<open>Inl\<close> with the coordinates guarded so far
  when \<^verbatim>\<open>create_shard\<close> throws, and \<open>Inr\<close> with the new pairs otherwise.
\<close>

fun split_create ::
  "shard \<Rightarrow> (bool \<times> coordinate) list \<Rightarrow> (coordinate \<times> shard) list \<Rightarrow> disk
     \<Rightarrow> (coordinate list \<times> disk + (coordinate \<times> shard) list \<times> disk) option" where
  "split_create src [] made d = Some (Inr (made, d))"
| "split_create src ((ok, c) # rest) made d =
     (case create_shard ok d c of
        Inl (e, d1) \<Rightarrow> Some (Inl (map fst made, d1))
      | Inr (newshard, d1) \<Rightarrow>
          (case copy_to src c newshard of
             None \<Rightarrow> None
           | Some newshard' \<Rightarrow> split_create src rest (made @ [(c, newshard')]) d1))"

text \<open>The guards run in the reverse order of their construction.\<close>

fun run_guards ::
  "working_directory \<Rightarrow> disk \<Rightarrow> coordinate list \<Rightarrow> working_directory \<times> disk" where
  "run_guards wd d [] = (wd, d)"
| "run_guards wd d (c # cs) =
     (case run_guards wd d cs of (wd1, d1) \<Rightarrow> snd (drop_shard wd1 d1 c))"

text \<open>Modelled from the spec: \<^verbatim>\<open>shard_vector::replace(i, ...)\<close> with four pairs removes
  slot \<open>i\<close> and appends the four new pairs at the end.\<close>

definition replace4 :: "shard_vector \<Rightarrow> nat \<Rightarrow> (coordinate \<times> shard) list \<Rightarrow> shard_vector" where
  "replace4 v i made = take i v @ drop (Suc i) v @ made"

text \<open>
  \<^verbatim>\<open>split_shard\<close>. An exception inside the \<^verbatim>\<open>try\<close> block is caught and turned into
  \<open>SPLITFAILED\<close> after the guards have run; \<open>None\<close> is a failed assertion.
\<close>

definition split_shard ::
  "bool list \<Rightarrow> working_directory \<Rightarrow> disk \<Rightarrow> nat
     \<Rightarrow> (returncode \<times> working_directory \<times> disk) option" where
  "split_shard oks wd d shard_num =
     (let c = fst (m_shards d ! shard_num);
          s = snd (m_shards d ! shard_num)
      in case split_create s (zip oks (split_coordinates c s)) [] d of
           None \<Rightarrow> None
         | Some (Inl (guarded, d1)) \<Rightarrow> Some (SPLITFAILED, run_guards wd d1 guarded)
         | Some (Inr (made, d1)) \<Rightarrow>
             (let newshard_vector = replace4 (m_shards d1) shard_num made;
                  d2 = d1\<lparr>m_shards := newshard_vector\<rparr>
              in Some (SUCCESS, snd (drop_shard wd d2 c))))"

text \<open>
  \<^verbatim>\<open>deal_with_full_shard\<close>. The middle branch is
  \<^verbatim>\<open>assert(!"Not implemented"); return SPLITFAILED;\<close>: the asserted expression is the
  negation of a string literal, which is false.
\<close>

definition assert_then :: "bool \<Rightarrow> 'a option \<Rightarrow> 'a option" where
  "assert_then asserted rest = (if asserted then rest else None)"

definition deal_with_full_shard ::
  "bool \<Rightarrow> bool list \<Rightarrow> working_directory \<Rightarrow> disk \<Rightarrow> nat
     \<Rightarrow> (po6_error \<times> working_directory \<times> disk
         + returncode \<times> working_directory \<times> disk) option" where
  "deal_with_full_shard create_ok oks wd d shard_num =
     (let c = fst (m_shards d ! shard_num);
          s = snd (m_shards d ! shard_num)
      in if stale_space s \<ge> 30 then clean_shard create_ok wd d shard_num
         else if primary_mask c = UINT32_MAX \<or> secondary_mask c = UINT32_MAX then
           assert_then False (Some (Inr (SPLITFAILED, wd, d)))
         else map_option Inr (split_shard oks wd d shard_num))"

subsection \<open>Inputs used in the examples\<close>

definition big_value :: "buffer list" where
  "big_value = [replicate 134217728 0]"

text \<open>The crossing of a 4 MiB boundary between two data offsets, in the words of the
  specification.\<close>

definition crosses_4MiB :: "uint32 \<Rightarrow> uint32 \<Rightarrow> bool" where
  "crosses_4MiB old_offset new_offset \<longleftrightarrow> unat old_offset div 4194304 \<noteq> unat new_offset div 4194304"

text \<open>A disk of arity 2 whose only shard is fresh; its region is given.\<close>

definition disk_with_region :: "coordinate \<Rightarrow> disk" where
  "disk_with_region c =
     \<lparr>m_arity = 2, m_shards = [(c, shard_create)], m_log = [], m_dir = Map.empty,
      m_spare_shards = [], m_spare_shard_counter = 0\<rparr>"

text \<open>
  A shard filled through \<^verbatim>\<open>put\<close>: \<open>filled_shard n\<close> is a fresh shard after \<open>n\<close>
  successful puts of the distinct four-byte keys \<open>fill_key 0\<close>, ..., \<open>fill_key (n - 1)\<close>,
  each with one attribute of one byte. The keys collide: all of them come with the
  primary hash \<open>65536\<close> and the secondary hash \<open>0\<close>. \<open>full_shard\<close> is the shard after
  \<open>HASH_TABLE_ENTRIES\<close> such puts.
\<close>

definition fill_hash :: uint32 where
  "fill_hash = 65536"

definition fill_key :: "nat \<Rightarrow> buffer" where
  "fill_key i = le_bytes 4 (of_nat i :: uint32)"

definition fill_value :: "buffer list" where
  "fill_value = [[0]]"

primrec filled_shard :: "nat \<Rightarrow> shard option" where
  "filled_shard 0 = Some shard_create"
| "filled_shard (Suc n) =
     (case filled_shard n of
        None \<Rightarrow> None
      | Some s \<Rightarrow>
          (case shard_put s fill_hash 0 (fill_key n) fill_value 1 of
             None \<Rightarrow> None
           | Some (r, s') \<Rightarrow> if r = SUCCESS then Some s' else None))"

definition full_shard :: shard where
  "full_shard = the (filled_shard HASH_TABLE_ENTRIES)"

text \<open>The state of the shard after \<open>n\<close> of these puts: record \<open>b\<close> lies at
  \<open>fill_offset b\<close> and slot \<open>b\<close> points at it.\<close>

definition fill_offset :: "nat \<Rightarrow> uint32" where
  "fill_offset b = of_nat (INDEX_SEGMENT_SIZE + 24 * b)"

definition fill_inv :: "nat \<Rightarrow> shard \<Rightarrow> bool" where
  "fill_inv n s \<longleftrightarrow>
     m_search_offset s = n \<and> m_data_offset s = fill_offset n
     \<and> (\<forall>b. m_hash_table s b =
            (if b < n then push_bit 32 (ucast (fill_offset b)) OR ucast fill_hash else 0))
     \<and> (\<forall>i. m_search_log s (2 * i + 1) = (if i < n then ucast (fill_offset i) else 0))
     \<and> (\<forall>b < n. stored_key s (fill_offset b) = Some (fill_key b))"

text \<open>
  A hash function under which these keys collide (every key hashes to \<open>65536\<close>, every
  value to \<open>0\<close>), and a disk of arity 2 whose only shard, of the given region, is the
  full shard.
\<close>

definition colliding_hashing :: hashing where
  "colliding_hashing =
     \<lparr>CityHash64 = (\<lambda>k. 65536), CityHash64_all = map (\<lambda>a. 0), lower_interlace = (\<lambda>hs. 0)\<rparr>"

definition full_disk :: "coordinate \<Rightarrow> disk" where
  "full_disk c =
     \<lparr>m_arity = 2, m_shards = [(c, full_shard)], m_log = [],
      m_dir = [shard_filename c \<mapsto> full_shard], m_spare_shards = [],
      m_spare_shard_counter = 0\<rparr>"

section \<open>Facts about the shard\<close>

lemma shard_constants:
  "HASH_TABLE_ENTRIES = 65536" "SEARCH_INDEX_ENTRIES = 65536" "INDEX_SEGMENT_SIZE = 1572864"
  "FILE_SIZE = 268435456" "DATA_SEGMENT_SIZE = 266862592"
  by (simp_all add: HASH_TABLE_ENTRIES_def SEARCH_INDEX_ENTRIES_def INDEX_SEGMENT_SIZE_def
      HASH_TABLE_SIZE_def SEARCH_INDEX_SIZE_def FILE_SIZE_def DATA_SEGMENT_SIZE_def)

lemma shard_create_fields:
  "m_hash_table shard_create = (\<lambda>_. 0)" "m_search_log shard_create = (\<lambda>_. 0)"
  "m_data shard_create = (\<lambda>_. 0)" "m_data_offset shard_create = 1572864"
  "m_search_offset shard_create = 0" "msync_async_calls shard_create = 0"
  by (simp_all add: shard_create_def shard_constants)

text \<open>Looking for offset 0 in the search log never matches and never leaves the log.\<close>

lemma invalidate_loop_zero:
  "low = 0 \<Longrightarrow> high \<le> int SEARCH_INDEX_ENTRIES \<Longrightarrow> invalidate_loop s 0 iw low high = Some s"
proof (induction s "0 :: uint32" iw low high rule: invalidate_loop.induct)
  case (1 s iw low high)
  show ?case
  proof (cases "low \<le> high")
    case False
    then show ?thesis by (simp add: invalidate_loop.simps)
  next
    case True
    let ?mid = "low + (high - low) div 2"
    have mid: "0 \<le> ?mid" "?mid < int SEARCH_INDEX_ENTRIES"
      using True 1(3,4) by (simp_all add: shard_constants)
    have "invalidate_loop s 0 iw low high = invalidate_loop s 0 iw low (?mid - 1)"
      using True mid by (subst invalidate_loop.simps) (simp add: word_gt_0)
    also have "\<dots> = Some s"
      using True mid 1(3,4) by (intro 1(1)) (auto simp: word_gt_0)
    finally show ?thesis .
  qed
qed

lemma invalidate_search_log_zero: "invalidate_search_log s 0 iw = Some s"
  by (simp add: invalidate_search_log_def invalidate_loop_zero)

lemma length_pack_record: "length (pack_record k v ver) = data_size k v"
proof -
  have "foldl (\<lambda>n x. n + length x) a v = a + sum_list (map length v)" for a :: nat
    by (induction v arbitrary: a) auto
  moreover have "length (concat (map (\<lambda>x. le_bytes 4 (of_nat (length x) :: uint32) @ x) v))
      = 4 * length v + sum_list (map length v)"
    by (induction v) (auto simp: le_bytes_def)
  ultimately show ?thesis
    by (simp add: pack_record_def data_size_def le_bytes_def)
qed

lemma hash_lookup_create:
  "ph \<noteq> 0 \<Longrightarrow> hash_lookup shard_create ph k = Some (HASH_INTO_TABLE (unat ph), 0)"
  by (simp add: hash_lookup_def hash_probe.simps probe_slot_def shard_create_fields
      HASH_INTO_TABLE_def shard_constants)

lemmas put_on_create =
  shard_put_def hash_lookup_create invalidate_search_log_zero length_pack_record data_size_def
  shard_create_fields shard_constants HASH_OFFSET_INVALID_def shard_async_def Let_def

lemma stale_space_create: "stale_space shard_create = 0"
  by (simp add: stale_space_def stale_totals_def stale_loop.simps shard_create_fields
      shard_constants)

lemma stale_space_spec_no_stale:
  "(\<And>i. \<not> entry_stale s i) \<Longrightarrow> stale_space_spec s = 0"
  by (simp add: stale_space_spec_def stale_entries_def)

section \<open>Hash slots\<close>

lemma length_read_bytes [simp]: "length (read_bytes d a n) = n"
  by (simp add: read_bytes_def)

lemma stored_key_eq_Some:
  "stored_key s off = Some k \<longleftrightarrow>
     data_key_size s off = Some (length k) \<and> read_bytes (m_data s) (data_key_offset off) (length k) = k"
  by (cases "data_key_size s off") (auto simp: stored_key_def)

lemma stored_key_eq_None: "stored_key s off = None \<longleftrightarrow> data_key_size s off = None"
  by (simp add: stored_key_def)

lemma slot_holds_stored:
  "slot_holds s b ph k \<longleftrightarrow>
     \<not> slot_empty s b \<and> ucast (m_hash_table s b) = ph \<and> stored_key s (slot_offset s b) = Some k"
  by (simp add: slot_holds_def stored_key_eq_Some)

lemma probe_slot_stored:
  "probe_slot s ph k b =
     (if (ucast (m_hash_table s b) :: uint32) = ph then
        (case stored_key s (slot_offset s b) of
           None \<Rightarrow> None
         | Some k' \<Rightarrow> if k' = k then Some True else Some (slot_empty s b))
      else Some (slot_empty s b))"
  by (cases "data_key_size s (slot_offset s b)")
    (auto simp: probe_slot_def Let_def stored_key_def slot_offset_def slot_empty_def)

lemma HASH_INTO_TABLE_less [simp]: "HASH_INTO_TABLE x < HASH_TABLE_ENTRIES"
  by (simp add: HASH_INTO_TABLE_def HASH_TABLE_ENTRIES_def)

lemma hash_probe_Some_iff:
  "hash_probe s ph k start off = Some (b, e) \<longleftrightarrow>
     (\<exists>j. off \<le> j \<and> j < HASH_TABLE_ENTRIES \<and> b = HASH_INTO_TABLE (start + j)
          \<and> e = m_hash_table s b \<and> probe_slot s ph k b = Some True
          \<and> (\<forall>i. off \<le> i \<and> i < j \<longrightarrow> probe_slot s ph k (HASH_INTO_TABLE (start + i)) = Some False))"
proof (induction s ph k start off rule: hash_probe.induct)
  case (1 s ph k start off)
  let ?p = "probe_slot s ph k (HASH_INTO_TABLE (start + off))"
  let ?R = "\<lambda>off. \<exists>j. off \<le> j \<and> j < HASH_TABLE_ENTRIES \<and> b = HASH_INTO_TABLE (start + j)
          \<and> e = m_hash_table s b \<and> probe_slot s ph k b = Some True
          \<and> (\<forall>i. off \<le> i \<and> i < j \<longrightarrow> probe_slot s ph k (HASH_INTO_TABLE (start + i)) = Some False)"
  show ?case
  proof (cases "off < HASH_TABLE_ENTRIES")
    case False
    then show ?thesis
      by (subst hash_probe.simps) auto
  next
    case lt: True
    consider (abort) "?p = None" | (hit) "?p = Some True" | (miss) "?p = Some False"
      by (cases ?p) auto
    then show ?thesis
    proof cases
      case abort
      have "\<not> ?R off"
      proof
        assume "?R off"
        then obtain j where j: "off \<le> j" "probe_slot s ph k (HASH_INTO_TABLE (start + j)) = Some True"
          "\<forall>i. off \<le> i \<and> i < j \<longrightarrow> probe_slot s ph k (HASH_INTO_TABLE (start + i)) = Some False"
          by blast
        show False
        proof (cases "j = off")
          case True
          with j(2) abort show False by simp
        next
          case False
          with j(1,3) have "probe_slot s ph k (HASH_INTO_TABLE (start + off)) = Some False"
            by simp
          with abort show False by simp
        qed
      qed
      moreover have "hash_probe s ph k start off = None"
        using lt abort by (subst hash_probe.simps) simp
      ultimately show ?thesis by simp
    next
      case hit
      have h: "hash_probe s ph k start off
          = Some (HASH_INTO_TABLE (start + off), m_hash_table s (HASH_INTO_TABLE (start + off)))"
        using lt hit by (subst hash_probe.simps) simp
      have "?R off \<longleftrightarrow> b = HASH_INTO_TABLE (start + off) \<and> e = m_hash_table s b"
      proof
        assume "?R off"
        then obtain j where j: "off \<le> j" "b = HASH_INTO_TABLE (start + j)" "e = m_hash_table s b"
          "\<forall>i. off \<le> i \<and> i < j \<longrightarrow> probe_slot s ph k (HASH_INTO_TABLE (start + i)) = Some False"
          by blast
        have "j = off"
        proof (rule ccontr)
          assume "j \<noteq> off"
          with j(1,4) have "?p = Some False" by simp
          with hit show False by simp
        qed
        with j show "b = HASH_INTO_TABLE (start + off) \<and> e = m_hash_table s b" by simp
      next
        assume "b = HASH_INTO_TABLE (start + off) \<and> e = m_hash_table s b"
        with lt hit show "?R off"
          by (intro exI [of _ off]) auto
      qed
      with h show ?thesis by auto
    next
      case miss
      have h: "hash_probe s ph k start off = hash_probe s ph k start (off + 1)"
        using lt miss by (subst hash_probe.simps) simp
      have ih: "hash_probe s ph k start (off + 1) = Some (b, e) \<longleftrightarrow> ?R (off + 1)"
        using 1 lt miss by simp
      have "?R off \<longleftrightarrow> ?R (off + 1)"
      proof
        assume "?R off"
        then obtain j where j: "off \<le> j" "j < HASH_TABLE_ENTRIES" "b = HASH_INTO_TABLE (start + j)"
          "e = m_hash_table s b" "probe_slot s ph k b = Some True"
          "\<forall>i. off \<le> i \<and> i < j \<longrightarrow> probe_slot s ph k (HASH_INTO_TABLE (start + i)) = Some False"
          by blast
        have "j \<noteq> off"
          using j(3,5) miss by auto
        with j show "?R (off + 1)"
          by (intro exI [of _ j]) auto
      next
        assume "?R (off + 1)"
        then obtain j where j: "off + 1 \<le> j" "j < HASH_TABLE_ENTRIES" "b = HASH_INTO_TABLE (start + j)"
          "e = m_hash_table s b" "probe_slot s ph k b = Some True"
          "\<forall>i. off + 1 \<le> i \<and> i < j \<longrightarrow> probe_slot s ph k (HASH_INTO_TABLE (start + i)) = Some False"
          by blast
        have "\<forall>i. off \<le> i \<and> i < j \<longrightarrow> probe_slot s ph k (HASH_INTO_TABLE (start + i)) = Some False"
        proof (intro allI impI)
          fix i assume i: "off \<le> i \<and> i < j"
          show "probe_slot s ph k (HASH_INTO_TABLE (start + i)) = Some False"
          proof (cases "i = off")
            case True
            with miss show ?thesis by simp
          next
            case False
            with i j(6) show ?thesis by simp
          qed
        qed
        with j show "?R off"
          by (intro exI [of _ j]) auto
      qed
      with h ih show ?thesis by simp
    qed
  qed
qed


subsection \<open>Alignment\<close>

lemma and_not_7: "(w :: uint32) AND NOT 7 = push_bit 3 (drop_bit 3 w)"
proof -
  have "(7 :: uint32) = mask 3"
    by (simp add: mask_eq_exp_minus_1)
  then show ?thesis
    by (simp add: bit_eq_iff bit_simps) (auto simp: bit_simps)
qed

lemma unat_and_not_7: "unat ((w :: uint32) AND NOT 7) = unat w div 8 * 8"
proof -
  have e: "w AND NOT 7 = w div 8 * 8"
    by (simp only: and_not_7) (simp add: push_bit_eq_mult drop_bit_eq_div)
  have d: "unat (w div 8) = unat w div 8"
    by (simp add: unat_div)
  have "unat w div 8 * 8 \<le> unat w"
    by simp
  also have "\<dots> < 2 ^ 32"
    using unsigned_less [of w, where 'a = nat] by simp
  finally have "unat (w div 8) * unat (8 :: uint32) < 2 ^ LENGTH(32)"
    by (simp add: d)
  then have "unat (w div 8 * 8) = unat (w div 8) * unat (8 :: uint32)"
    by (simp only: unat_mult_lem)
  then show ?thesis
    by (simp only: e d) simp
qed

lemma unat_plus_small:
  "unat (x :: uint32) + n < 2 ^ 32 \<Longrightarrow> unat (x + of_nat n) = unat x + n"
  by (simp add: unat_word_ariths unat_of_nat take_bit_nat_eq_self)

lemma unat_align_up:
  "unat (x :: uint32) + 7 < 2 ^ 32 \<Longrightarrow> unat ((x + 7) AND NOT 7) = (unat x + 7) div 8 * 8"
  using unat_plus_small [of x 7] by (simp only: unat_and_not_7) simp

lemma aligned8_iff:
  "unat (x :: uint32) + 7 < 2 ^ 32 \<Longrightarrow> aligned8 x \<longleftrightarrow> 8 dvd unat x"
proof -
  assume a: "unat x + 7 < 2 ^ 32"
  have "aligned8 x \<longleftrightarrow> unat ((x + 7) AND NOT 7) = unat x"
    by (simp add: aligned8_def word_unat_eq_iff)
  also have "\<dots> \<longleftrightarrow> (unat x + 7) div 8 * 8 = unat x"
    by (simp only: unat_align_up [OF a])
  also have "\<dots> \<longleftrightarrow> 8 dvd unat x"
    by presburger
  finally show ?thesis .
qed

subsection \<open>Bytes\<close>

lemma read_bytes_write_below:
  "x + n \<le> a \<Longrightarrow> read_bytes (write_bytes d a bs) x n = read_bytes d x n"
  by (simp add: read_bytes_def write_bytes_def)

lemma read_bytes_write_at:
  "i + n \<le> length bs \<Longrightarrow> read_bytes (write_bytes d a bs) (a + i) n = take n (drop i bs)"
  by (rule nth_equalityI) (auto simp: read_bytes_def write_bytes_def)

lemma le_word_le_bytes32: "le_word (le_bytes 4 w) = (w :: uint32)"
proof -
  have "[0..<4] = [0, 1, 2, 3::nat]"
    by (simp add: upt_conv_Cons)
  then have e: "le_bytes 4 w = [ucast w, ucast (drop_bit 8 w), ucast (drop_bit 16 w), ucast (drop_bit 24 w)]"
    by (simp add: le_bytes_def)
  show ?thesis
    unfolding e
  proof (rule bit_word_eqI)
    fix n assume "n < LENGTH(32)"
    then consider "n < 8" | "8 \<le> n \<and> n < 16" | "16 \<le> n \<and> n < 24" | "24 \<le> n \<and> n < 32"
      by fastforce
    then show "bit (le_word [ucast w, ucast (drop_bit 8 w), ucast (drop_bit 16 w),
                    ucast (drop_bit 24 w)] :: uint32) n = bit w n"
      by cases (auto simp: bit_simps)
  qed
qed

lemma pack_record_key_size:
  "take 4 (drop 8 (pack_record k v ver)) = le_bytes 4 (of_nat (length k) :: uint32)"
  by (simp add: pack_record_def le_bytes_def)

lemma pack_record_key:
  "take (length k) (drop 12 (pack_record k v ver)) = k"
  by (simp add: pack_record_def le_bytes_def)

lemma data_size_ge: "14 + length k \<le> data_size k v"
proof -
  have "foldl (\<lambda>n x. n + length x) a v = a + sum_list (map length v)" for a :: nat
    by (induction v arbitrary: a) auto
  then show ?thesis
    by (simp add: data_size_def)
qed


subsection \<open>Slots\<close>

lemma slot_word_hash:
  "(ucast ((push_bit 32 (ucast (off :: uint32)) :: uint64) OR ucast (h :: uint32)) :: uint32) = h"
  "(ucast ((push_bit 32 (ucast (off :: uint32)) :: uint64) OR push_bit 32 (ucast (iv :: uint32))
      OR ucast (h :: uint32)) :: uint32) = h"
  by (rule bit_word_eqI; auto simp: bit_simps dest: bit_imp_le_length)+

lemma slot_word_offset:
  "(ucast (drop_bit 32 ((push_bit 32 (ucast (off :: uint32)) :: uint64) OR ucast (h :: uint32)))
      :: uint32) = off"
  "(ucast (drop_bit 32 ((push_bit 32 (ucast (off :: uint32)) :: uint64)
      OR push_bit 32 (ucast (iv :: uint32)) OR ucast (h :: uint32))) :: uint32) = off OR iv"
  by (rule bit_word_eqI; auto simp: bit_simps dest: bit_imp_le_length)+

lemma invalid_mask: "HASH_OFFSET_INVALID - 1 = mask 31"
  by (simp add: HASH_OFFSET_INVALID_def mask_eq_exp_minus_1)

lemma masked_valid:
  assumes "off < HASH_OFFSET_INVALID"
  shows "off AND (HASH_OFFSET_INVALID - 1) = off"
proof -
  have "off < 2 ^ 31"
    using assms by (simp add: HASH_OFFSET_INVALID_def)
  then have "off AND mask 31 = off"
    by (rule less_mask_eq)
  then show ?thesis
    by (simp only: invalid_mask)
qed

lemma masked_tombstone:
  assumes "off < HASH_OFFSET_INVALID"
  shows "(off OR HASH_OFFSET_INVALID) AND (HASH_OFFSET_INVALID - 1) = off"
proof -
  have z: "(2 ^ 31 :: uint32) AND mask 31 = 0"
    by (simp only: take_bit_eq_mask [symmetric] take_bit_of_exp) simp
  have p: "HASH_OFFSET_INVALID = 2 ^ 31"
    by (simp add: HASH_OFFSET_INVALID_def)
  have "off AND mask 31 = off"
    using masked_valid [OF assms] by (simp only: invalid_mask)
  then have "(off OR 2 ^ 31) AND mask 31 = off"
    by (simp only: bit.conj_disj_distrib2 z) simp
  then show ?thesis
    by (simp only: p mask_eq_exp_minus_1)
qed

lemma tombstone_nonzero: "off OR HASH_OFFSET_INVALID \<noteq> 0"
  by (simp add: HASH_OFFSET_INVALID_def or_eq_0_iff)

lemma aligned8_0: "aligned8 0"
  by (simp add: aligned8_def)

lemma stored_key_0: "stored_key s 0 \<noteq> None"
  by (simp add: stored_key_def data_key_size_def aligned8_0)

lemma slot_empty_offset: "slot_empty s b \<Longrightarrow> slot_offset s b = 0"
  by (simp add: slot_empty_def slot_offset_def)

lemma probe_slot_empty: "slot_empty s b \<Longrightarrow> probe_slot s ph k b = Some True"
  using stored_key_0 [of s]
  by (auto simp: probe_slot_stored slot_empty_offset split: option.splits)

lemma probe_slot_holds:
  assumes "\<not> slot_empty s b" and "stored_key s (slot_offset s b) = Some kb"
  shows "probe_slot s ph k b = Some (ucast (m_hash_table s b) = ph \<and> kb = k)"
  using assms by (auto simp: probe_slot_stored)

lemma probe_slot_cong:
  assumes "slot_empty s' b = slot_empty s b"
    and "(ucast (m_hash_table s' b) :: uint32) = ucast (m_hash_table s b)"
    and "stored_key s' (slot_offset s' b) = stored_key s (slot_offset s b)"
  shows "probe_slot s' ph k b = probe_slot s ph k b"
  by (simp add: probe_slot_stored assms split: option.split)

lemma hash_probe_transfer:
  assumes "hash_probe s ph k start off = Some (b, e)"
    and "\<And>c. c < HASH_TABLE_ENTRIES \<Longrightarrow> probe_slot s ph k c = Some False
            \<Longrightarrow> probe_slot s' ph k c = Some False"
    and "probe_slot s' ph k b = Some True"
  shows "hash_probe s' ph k start off = Some (b, m_hash_table s' b)"
proof -
  from assms(1) obtain j where j: "off \<le> j" "j < HASH_TABLE_ENTRIES" "b = HASH_INTO_TABLE (start + j)"
    "\<forall>i. off \<le> i \<and> i < j \<longrightarrow> probe_slot s ph k (HASH_INTO_TABLE (start + i)) = Some False"
    unfolding hash_probe_Some_iff by blast
  have "\<forall>i. off \<le> i \<and> i < j \<longrightarrow> probe_slot s' ph k (HASH_INTO_TABLE (start + i)) = Some False"
    using j(4) assms(2) by simp
  with j(1,2,3) assms(3) show ?thesis
    unfolding hash_probe_Some_iff by blast
qed

lemma hash_lookup_bucket:
  assumes "hash_lookup s ph k = Some (b, e)"
  shows "b < HASH_TABLE_ENTRIES" "e = m_hash_table s b" "probe_slot s ph k b = Some True"
  using assms unfolding hash_lookup_def hash_probe_Some_iff by auto

subsection \<open>Stored keys and writes\<close>

lemma stored_key_write_above:
  assumes "stored_key s off = Some k0"
    and "unat off + 12 + length k0 \<le> a"
    and "m_data s' = write_bytes (m_data s) a bs"
  shows "stored_key s' off = Some k0"
proof -
  from assms(1) have ks: "data_key_size s off = Some (length k0)"
    and kb: "read_bytes (m_data s) (data_key_offset off) (length k0) = k0"
    by (simp_all add: stored_key_eq_Some)
  have "read_bytes (m_data s') (unat off + 8) 4 = read_bytes (m_data s) (unat off + 8) 4"
    using assms(2,3) by (simp add: read_bytes_write_below)
  then have "data_key_size s' off = Some (length k0)"
    using ks by (simp add: data_key_size_def split: if_splits)
  moreover have "read_bytes (m_data s') (data_key_offset off) (length k0) = k0"
    using assms(2,3) kb by (simp add: read_bytes_write_below data_key_offset_def)
  ultimately show ?thesis
    by (simp add: stored_key_eq_Some)
qed

lemma stored_key_written:
  assumes "m_data s' = write_bytes (m_data s) (unat off) (pack_record k v ver)"
    and "aligned8 off" and "length k < 2 ^ 32"
  shows "stored_key s' off = Some k"
proof -
  have l: "8 + 4 \<le> length (pack_record k v ver)" "12 + length k \<le> length (pack_record k v ver)"
    using data_size_ge [of k v] by (simp_all add: length_pack_record)
  have "read_bytes (m_data s') (unat off + 8) 4 = le_bytes 4 (of_nat (length k) :: uint32)"
    using read_bytes_write_at [of 8 4 "pack_record k v ver" "m_data s" "unat off"] l(1) assms(1)
    by (simp add: pack_record_key_size)
  then have "data_key_size s' off = Some (unat (of_nat (length k) :: uint32))"
    using assms(2) by (simp add: data_key_size_def le_word_le_bytes32)
  then have "data_key_size s' off = Some (length k)"
    using assms(3) by (simp add: unat_of_nat take_bit_nat_eq_self)
  moreover have "read_bytes (m_data s') (data_key_offset off) (length k) = k"
    using read_bytes_write_at [of 12 "length k" "pack_record k v ver" "m_data s" "unat off"] l(2) assms(1)
    by (simp add: pack_record_key data_key_offset_def ac_simps)
  ultimately show ?thesis
    by (simp add: stored_key_eq_Some)
qed


subsection \<open>What \<open>put\<close> and \<open>del\<close> change\<close>

lemma invalidate_loop_fields:
  "invalidate_loop s ti iw low high = Some s' \<Longrightarrow>
   m_hash_table s' = m_hash_table s \<and> m_data s' = m_data s
   \<and> m_data_offset s' = m_data_offset s \<and> m_search_offset s' = m_search_offset s"
proof (induction s ti iw low high rule: invalidate_loop.induct)
  case (1 s ti iw low high)
  from "1.prems" show ?case
    by (subst (asm) invalidate_loop.simps) (auto split: if_splits dest: "1.IH")
qed

lemma invalidate_search_log_fields:
  "invalidate_search_log s ti iw = Some s' \<Longrightarrow>
   m_hash_table s' = m_hash_table s \<and> m_data s' = m_data s
   \<and> m_data_offset s' = m_data_offset s \<and> m_search_offset s' = m_search_offset s"
  unfolding invalidate_search_log_def by (rule invalidate_loop_fields)

lemma shard_put_effect:
  assumes "shard_put s ph sh k v ver = Some (r, s')"
  shows "(r \<noteq> SUCCESS \<and> s' = s)
     \<or> (r = SUCCESS
        \<and> data_size k v + unat (m_data_offset s) \<le> FILE_SIZE
        \<and> (\<exists>entry tv. hash_lookup s ph k = Some (entry, tv)
              \<and> m_hash_table s' = (m_hash_table s)
                   (entry := push_bit 32 (ucast (m_data_offset s)) OR ucast ph))
        \<and> m_data s' = write_bytes (m_data s) (unat (m_data_offset s)) (pack_record k v ver)
        \<and> m_data_offset s' = (m_data_offset s + of_nat (data_size k v) + 7) AND NOT 7)"
proof (cases "data_size k v + unat (m_data_offset s) > FILE_SIZE \<or> m_search_offset s = SEARCH_INDEX_ENTRIES")
  case True
  with assms show ?thesis
    by (auto simp: shard_put_def split: if_splits)
next
  case False
  with assms obtain entry tv where hl: "hash_lookup s ph k = Some (entry, tv)"
    by (auto simp: shard_put_def split: option.splits)
  let ?s1 = "s\<lparr>m_data := write_bytes (m_data s) (unat (m_data_offset s)) (pack_record k v ver)\<rparr>"
  let ?to = "ucast (drop_bit 32 tv) :: uint32"
  let ?P = "\<lambda>s2 :: shard. m_hash_table s2 = m_hash_table s \<and> m_data s2 = m_data ?s1
      \<and> r = SUCCESS
      \<and> m_hash_table s' = (m_hash_table s2)(entry := push_bit 32 (ucast (m_data_offset s)) OR ucast ph)
      \<and> m_data s' = m_data s2
      \<and> m_data_offset s' = (m_data_offset s + of_nat (length (pack_record k v ver)) + 7) AND NOT 7"
  have "\<exists>s2. ?P s2"
  proof (cases "?to < HASH_OFFSET_INVALID")
    case True
    with assms False hl obtain s2 where i: "invalidate_search_log ?s1 ?to (m_data_offset s) = Some s2"
      by (auto simp: shard_put_def Let_def split: option.splits)
    from invalidate_search_log_fields [OF i]
    have "m_hash_table s2 = m_hash_table s \<and> m_data s2 = m_data ?s1"
      by simp
    moreover from assms False hl True i
    have "r = SUCCESS
      \<and> m_hash_table s' = (m_hash_table s2)(entry := push_bit 32 (ucast (m_data_offset s)) OR ucast ph)
      \<and> m_data s' = m_data s2
      \<and> m_data_offset s' = (m_data_offset s + of_nat (length (pack_record k v ver)) + 7) AND NOT 7"
      by (auto simp: shard_put_def Let_def shard_async_def split: if_splits)
    ultimately have "?P s2"
      by simp
    then show ?thesis
      by (rule exI)
  next
    case nv: False
    from assms False hl nv
    have "r = SUCCESS
      \<and> m_hash_table s' = (m_hash_table ?s1)(entry := push_bit 32 (ucast (m_data_offset s)) OR ucast ph)
      \<and> m_data s' = m_data ?s1
      \<and> m_data_offset s' = (m_data_offset s + of_nat (length (pack_record k v ver)) + 7) AND NOT 7"
      by (auto simp: shard_put_def Let_def shard_async_def split: if_splits)
    then have "?P ?s1"
      by simp
    then show ?thesis
      by (rule exI)
  qed
  with False hl show ?thesis
    by (auto simp: length_pack_record)
qed

lemma shard_del_effect:
  assumes "shard_del s ph k = Some (r, s')"
  shows "(r \<noteq> SUCCESS \<and> s' = s)
     \<or> (r = SUCCESS
        \<and> unat (m_data_offset s) + 8 \<le> FILE_SIZE
        \<and> (\<exists>entry tv. hash_lookup s ph k = Some (entry, tv)
              \<and> (ucast (drop_bit 32 tv) :: uint32) \<noteq> 0
              \<and> (ucast (drop_bit 32 tv) :: uint32) < HASH_OFFSET_INVALID
              \<and> m_hash_table s' = (m_hash_table s)
                   (entry := push_bit 32 (ucast (ucast (drop_bit 32 tv) :: uint32))
                             OR push_bit 32 (ucast HASH_OFFSET_INVALID) OR ucast ph))
        \<and> m_data s' = m_data s
        \<and> m_data_offset s' = m_data_offset s + 8)"
proof -
  from assms obtain entry tv where hl: "hash_lookup s ph k = Some (entry, tv)"
    by (auto simp: shard_del_def split: option.splits)
  let ?to = "ucast (drop_bit 32 tv) :: uint32"
  show ?thesis
  proof (cases "?to = 0 \<or> ?to \<ge> HASH_OFFSET_INVALID \<or> unat (m_data_offset s) + 8 > FILE_SIZE")
    case True
    with assms hl show ?thesis
      by (auto simp: shard_del_def Let_def split: if_splits)
  next
    case False
    with assms hl obtain s1 where s1: "invalidate_search_log s ?to (m_data_offset s) = Some s1"
      by (auto simp: shard_del_def Let_def split: option.splits)
    note f = invalidate_search_log_fields [OF s1]
    from assms hl False s1 have "r = SUCCESS"
      "s' = s1\<lparr>m_data_offset := m_data_offset s + 8,
               m_hash_table := (m_hash_table s1)
                 (entry := push_bit 32 (ucast ?to) OR push_bit 32 (ucast HASH_OFFSET_INVALID)
                           OR ucast ph)\<rparr>"
      by (auto simp: shard_del_def Let_def)
    with hl False f show ?thesis
      by (auto simp: not_le)
  qed
qed

lemma hash_lookup_transfer:
  assumes "hash_lookup s ph k = Some (b, e)"
    and "\<And>c. c < HASH_TABLE_ENTRIES \<Longrightarrow> probe_slot s ph k c = Some False
            \<Longrightarrow> probe_slot s' ph k c = Some False"
    and "probe_slot s' ph k b = Some True"
  shows "hash_lookup s' ph k = Some (b, m_hash_table s' b)"
  using assms unfolding hash_lookup_def by (rule hash_probe_transfer)

lemma lookup_nonempty_holds:
  assumes inv: "shard_inv s" and hl: "hash_lookup s ph k = Some (e, tv)"
    and ne: "\<not> slot_empty s e"
  shows "slot_holds s e ph k"
proof -
  note b = hash_lookup_bucket [OF hl]
  from inv b(1) ne obtain ke where ke: "stored_key s (slot_offset s e) = Some ke"
    unfolding shard_inv_def by blast
  from probe_slot_holds [OF ne ke, of ph k] b(3)
  have "ucast (m_hash_table s e) = ph \<and> ke = k"
    by simp
  with ne ke show ?thesis
    by (simp add: slot_holds_stored)
qed

lemma shard_inv_update:
  assumes inv: "shard_inv s"
    and hl: "hash_lookup s ph k = Some (e, tv)"
    and tab: "m_hash_table s' = (m_hash_table s)(e := w)"
    and keep: "\<And>off k0. stored_key s off = Some k0
                 \<Longrightarrow> unat off + 12 + length k0 \<le> unat (m_data_offset s)
                 \<Longrightarrow> stored_key s' off = Some k0"
    and new: "\<not> slot_empty s' e" "(ucast w :: uint32) = ph"
      "stored_key s' (slot_offset s' e) = Some k"
      "8 dvd unat (slot_offset s' e)" "INDEX_SEGMENT_SIZE \<le> unat (slot_offset s' e)"
      "unat (slot_offset s' e) + 12 + length k \<le> unat (m_data_offset s')"
    and off: "unat (m_data_offset s) \<le> unat (m_data_offset s')"
      "8 dvd unat (m_data_offset s')" "INDEX_SEGMENT_SIZE \<le> unat (m_data_offset s')"
      "unat (m_data_offset s') \<le> FILE_SIZE"
  shows "shard_inv s' \<and> (\<forall>b ph0 k0. b < HASH_TABLE_ENTRIES \<longrightarrow> slot_holds s b ph0 k0
                              \<longrightarrow> slot_holds s' b ph0 k0)"
proof -
  note eb = hash_lookup_bucket [OF hl]
  have te: "m_hash_table s' e = w"
    by (simp add: tab)
  have other: "m_hash_table s' b = m_hash_table s b" if "b \<noteq> e" for b
    using that by (simp add: tab)
  have other_slot: "slot_empty s' b = slot_empty s b" "slot_offset s' b = slot_offset s b"
    if "b \<noteq> e" for b
    using other [OF that] by (simp_all add: slot_empty_def slot_offset_def)
  have old: "\<exists>kb. stored_key s (slot_offset s b) = Some kb
         \<and> 8 dvd unat (slot_offset s b) \<and> INDEX_SEGMENT_SIZE \<le> unat (slot_offset s b)
         \<and> unat (slot_offset s b) + 12 + length kb \<le> unat (m_data_offset s)
         \<and> hash_lookup s (ucast (m_hash_table s b)) kb = Some (b, m_hash_table s b)"
    if "b < HASH_TABLE_ENTRIES" "\<not> slot_empty s b" for b
    using inv that unfolding shard_inv_def by blast
  have same: "\<not> slot_empty s' b
      \<and> (ucast (m_hash_table s' b) :: uint32) = ucast (m_hash_table s b)
      \<and> stored_key s' (slot_offset s' b) = stored_key s (slot_offset s b)"
    if b: "b < HASH_TABLE_ENTRIES" "\<not> slot_empty s b" for b
  proof (cases "b = e")
    case True
    from lookup_nonempty_holds [OF inv hl] b(2) True have "slot_holds s e ph k"
      by simp
    then have "(ucast (m_hash_table s e) :: uint32) = ph" "stored_key s (slot_offset s e) = Some k"
      by (simp_all add: slot_holds_stored)
    with new(1,2,3) te True show ?thesis
      by simp
  next
    case False
    from old [OF b] obtain kb where kb: "stored_key s (slot_offset s b) = Some kb"
      "unat (slot_offset s b) + 12 + length kb \<le> unat (m_data_offset s)"
      by blast
    from keep [OF kb] have "stored_key s' (slot_offset s b) = Some kb" .
    with kb(1) b(2) False show ?thesis
      by (simp add: other other_slot)
  qed
  have probe_same: "probe_slot s' ph0 k0 b = probe_slot s ph0 k0 b"
    if "b < HASH_TABLE_ENTRIES" "\<not> slot_empty s b" for b ph0 k0
    using same [OF that] that(2) by (intro probe_slot_cong) simp_all
  have false_same: "probe_slot s' ph0 k0 c = Some False"
    if "c < HASH_TABLE_ENTRIES" "probe_slot s ph0 k0 c = Some False" for c ph0 k0
  proof -
    have "\<not> slot_empty s c"
      using that(2) probe_slot_empty [of s c ph0 k0] by auto
    from probe_same [OF that(1) this, of ph0 k0] that(2) show ?thesis
      by simp
  qed
  have holds: "slot_holds s' b ph0 k0" if "b < HASH_TABLE_ENTRIES" "slot_holds s b ph0 k0" for b ph0 k0
  proof -
    from that(2) have ne: "\<not> slot_empty s b"
      by (simp add: slot_holds_stored)
    from same [OF that(1) ne] that(2) show ?thesis
      by (simp add: slot_holds_stored)
  qed
  have slot: "8 dvd unat (slot_offset s' b) \<and> INDEX_SEGMENT_SIZE \<le> unat (slot_offset s' b)
      \<and> (\<exists>kb. stored_key s' (slot_offset s' b) = Some kb
             \<and> unat (slot_offset s' b) + 12 + length kb \<le> unat (m_data_offset s')
             \<and> hash_lookup s' (ucast (m_hash_table s' b)) kb = Some (b, m_hash_table s' b))"
    if b: "b < HASH_TABLE_ENTRIES" "\<not> slot_empty s' b" for b
  proof (cases "b = e")
    case True
    have "probe_slot s' ph k e = Some True"
      using probe_slot_holds [OF new(1,3), of ph k] new(2) te by simp
    with hl false_same have "hash_lookup s' ph k = Some (e, m_hash_table s' e)"
      by (intro hash_lookup_transfer [of s]) auto
    with new te True show ?thesis
      by auto
  next
    case False
    with b(2) have ne: "\<not> slot_empty s b"
      by (simp add: other_slot)
    from old [OF b(1) ne] obtain kb where kb: "stored_key s (slot_offset s b) = Some kb"
      "8 dvd unat (slot_offset s b)" "INDEX_SEGMENT_SIZE \<le> unat (slot_offset s b)"
      "unat (slot_offset s b) + 12 + length kb \<le> unat (m_data_offset s)"
      "hash_lookup s (ucast (m_hash_table s b)) kb = Some (b, m_hash_table s b)"
      by blast
    have "probe_slot s (ucast (m_hash_table s b)) kb b = Some True"
      using hash_lookup_bucket(3) [OF kb(5)] .
    then have "probe_slot s' (ucast (m_hash_table s b)) kb b = Some True"
      using probe_same [OF b(1) ne] by simp
    with kb(5) false_same
    have "hash_lookup s' (ucast (m_hash_table s b)) kb = Some (b, m_hash_table s' b)"
      by (intro hash_lookup_transfer [of s]) auto
    moreover have "stored_key s' (slot_offset s' b) = Some kb"
      using same [OF b(1) ne] kb(1) by simp
    ultimately show ?thesis
      using kb(2,3,4) off(1) False by (auto simp: other other_slot)
  qed
  have "shard_inv s'"
    unfolding shard_inv_def using off(2,3,4) slot by blast
  with holds show ?thesis
    by blast
qed

lemma round_up_8:
  fixes a :: nat
  shows "a \<le> (a + 7) div 8 * 8" "8 dvd (a + 7) div 8 * 8"
    "8 dvd f \<Longrightarrow> a \<le> f \<Longrightarrow> (a + 7) div 8 * 8 \<le> f"
  by presburger+

lemma shard_put_inv:
  assumes inv: "shard_inv s" and put: "shard_put s ph sh k v ver = Some (r, s')"
  shows "shard_inv s' \<and> (\<forall>b ph0 k0. b < HASH_TABLE_ENTRIES \<longrightarrow> slot_holds s b ph0 k0
                              \<longrightarrow> slot_holds s' b ph0 k0)"
proof (cases "r = SUCCESS")
  case False
  with shard_put_effect [OF put] inv show ?thesis
    by auto
next
  case True
  with shard_put_effect [OF put] obtain e tv where
    ds: "data_size k v + unat (m_data_offset s) \<le> FILE_SIZE"
    and hl: "hash_lookup s ph k = Some (e, tv)"
    and tab: "m_hash_table s' = (m_hash_table s)
                   (e := push_bit 32 (ucast (m_data_offset s)) OR ucast ph)"
    and dat: "m_data s' = write_bytes (m_data s) (unat (m_data_offset s)) (pack_record k v ver)"
    and off': "m_data_offset s' = (m_data_offset s + of_nat (data_size k v) + 7) AND NOT 7"
    by auto
  let ?o = "m_data_offset s"
  from inv have o: "8 dvd unat ?o" "INDEX_SEGMENT_SIZE \<le> unat ?o" "unat ?o \<le> FILE_SIZE"
    by (simp_all add: shard_inv_def)
  have f: "FILE_SIZE = 268435456" "INDEX_SEGMENT_SIZE = 1572864"
    by (simp_all add: shard_constants FILE_SIZE_def)
  have p: "unat (?o + of_nat (data_size k v)) = unat ?o + data_size k v"
    using ds f by (intro unat_plus_small) simp
  have u': "unat (m_data_offset s') = (unat ?o + data_size k v + 7) div 8 * 8"
    unfolding off' using ds f by (subst unat_align_up) (simp_all add: p)
  have lk: "14 + length k \<le> data_size k v"
    by (rule data_size_ge)
  have valid: "?o < HASH_OFFSET_INVALID"
    using o(3) f by (simp add: word_less_nat_alt HASH_OFFSET_INVALID_def)
  have al: "aligned8 ?o"
    using o(1,3) f by (subst aligned8_iff) simp_all
  have nz: "?o \<noteq> 0"
    using o(2) f by (auto simp: unat_eq_0 [symmetric] simp del: unat_eq_0)
  have te: "m_hash_table s' e = push_bit 32 (ucast ?o) OR ucast ph"
    by (simp add: tab)
  have so: "slot_offset s' e = ?o"
    by (simp only: slot_offset_def te slot_word_offset masked_valid [OF valid])
  have n1: "\<not> slot_empty s' e"
    using nz by (simp only: slot_empty_def te slot_word_offset) simp
  have n2: "(ucast (push_bit 32 (ucast ?o) OR ucast ph :: uint64) :: uint32) = ph"
    by (simp only: slot_word_hash)
  have n3: "stored_key s' (slot_offset s' e) = Some k"
    unfolding so using dat al by (rule stored_key_written) (use lk ds f in simp)
  have n6: "unat (slot_offset s' e) + 12 + length k \<le> unat (m_data_offset s')"
    unfolding so u' using lk round_up_8(1) [of "unat ?o + data_size k v"] by simp
  have o1: "unat ?o \<le> unat (m_data_offset s')"
    unfolding u' using round_up_8(1) [of "unat ?o + data_size k v"] by simp
  have o2: "8 dvd unat (m_data_offset s')"
    unfolding u' by (rule round_up_8(2))
  have o4: "unat (m_data_offset s') \<le> FILE_SIZE"
    unfolding u' using ds by (intro round_up_8(3)) (simp_all add: f add.commute)
  have o3: "INDEX_SEGMENT_SIZE \<le> unat (m_data_offset s')"
    using o(2) o1 by simp
  show ?thesis
    by (rule shard_inv_update [OF inv hl tab stored_key_write_above [OF _ _ dat] n1 n2 n3 _ _ n6
          o1 o2 o3 o4])
      (simp_all add: so o)
qed

lemma shard_del_inv:
  assumes inv: "shard_inv s" and del: "shard_del s ph k = Some (r, s')"
  shows "shard_inv s' \<and> (\<forall>b ph0 k0. b < HASH_TABLE_ENTRIES \<longrightarrow> slot_holds s b ph0 k0
                              \<longrightarrow> slot_holds s' b ph0 k0)"
proof (cases "r = SUCCESS")
  case False
  with shard_del_effect [OF del] inv show ?thesis
    by auto
next
  case True
  with shard_del_effect [OF del] obtain e tv where
    room: "unat (m_data_offset s) + 8 \<le> FILE_SIZE"
    and hl: "hash_lookup s ph k = Some (e, tv)"
    and nz: "(ucast (drop_bit 32 tv) :: uint32) \<noteq> 0"
    and valid: "(ucast (drop_bit 32 tv) :: uint32) < HASH_OFFSET_INVALID"
    and tab: "m_hash_table s' = (m_hash_table s)
                   (e := push_bit 32 (ucast (ucast (drop_bit 32 tv) :: uint32))
                         OR push_bit 32 (ucast HASH_OFFSET_INVALID) OR ucast ph)"
    and dat: "m_data s' = m_data s"
    and off': "m_data_offset s' = m_data_offset s + 8"
    by auto
  let ?to = "ucast (drop_bit 32 tv) :: uint32"
  let ?w = "push_bit 32 (ucast ?to) OR push_bit 32 (ucast HASH_OFFSET_INVALID) OR ucast ph :: uint64"
  note eb = hash_lookup_bucket [OF hl]
  from inv have o: "8 dvd unat (m_data_offset s)" "INDEX_SEGMENT_SIZE \<le> unat (m_data_offset s)"
    by (simp_all add: shard_inv_def)
  have f: "FILE_SIZE = 268435456"
    by (simp add: FILE_SIZE_def)
  have ne: "\<not> slot_empty s e"
    using nz by (simp add: slot_empty_def eb(2))
  have so: "slot_offset s e = ?to"
    by (simp only: slot_offset_def eb(2) [symmetric] masked_valid [OF valid])
  from lookup_nonempty_holds [OF inv hl ne]
  have sk: "stored_key s (slot_offset s e) = Some k"
    by (simp add: slot_holds_stored)
  from inv eb(1) ne sk have bounds: "8 dvd unat (slot_offset s e)"
    "INDEX_SEGMENT_SIZE \<le> unat (slot_offset s e)"
    "unat (slot_offset s e) + 12 + length k \<le> unat (m_data_offset s)"
    unfolding shard_inv_def by auto
  have same_key: "stored_key s' x = stored_key s x" for x
    by (simp add: stored_key_def data_key_size_def dat)
  have te: "m_hash_table s' e = ?w"
    by (simp add: tab)
  have so': "slot_offset s' e = slot_offset s e"
    by (simp only: slot_offset_def [of s'] te slot_word_offset masked_tombstone [OF valid] so)
  have n1: "\<not> slot_empty s' e"
    by (simp only: slot_empty_def te slot_word_offset tombstone_nonzero not_False_eq_True)
  have n2: "(ucast ?w :: uint32) = ph"
    by (simp only: slot_word_hash)
  have n3: "stored_key s' (slot_offset s' e) = Some k"
    by (simp only: so' same_key sk)
  have u': "unat (m_data_offset s') = unat (m_data_offset s) + 8"
    unfolding off' using room f unat_plus_small [of "m_data_offset s" 8] by simp
  show ?thesis
    by (rule shard_inv_update [OF inv hl tab _ n1 n2 n3])
      (use bounds o room in \<open>simp_all add: same_key so' u'\<close>)
qed

lemma shard_inv_create: "shard_inv shard_create"
  by (simp add: shard_inv_def slot_empty_def shard_create_fields shard_constants FILE_SIZE_def)

lemma shard_apply_inv:
  assumes "shard_inv s" and "shard_apply s x = Some s'"
  shows "shard_inv s' \<and> (\<forall>b ph0 k0. b < HASH_TABLE_ENTRIES \<longrightarrow> slot_holds s b ph0 k0
                              \<longrightarrow> slot_holds s' b ph0 k0)"
proof (cases x)
  case (ShardPut ph sh k v ver)
  with assms(2) obtain r where "shard_put s ph sh k v ver = Some (r, s')"
    by auto
  from shard_put_inv [OF assms(1) this] show ?thesis .
next
  case (ShardDel ph k)
  with assms(2) obtain r where "shard_del s ph k = Some (r, s')"
    by auto
  from shard_del_inv [OF assms(1) this] show ?thesis .
qed

lemma shard_run_inv:
  "shard_inv s \<Longrightarrow> shard_run s ops = Some s' \<Longrightarrow>
   shard_inv s' \<and> (\<forall>b ph0 k0. b < HASH_TABLE_ENTRIES \<longrightarrow> slot_holds s b ph0 k0
                              \<longrightarrow> slot_holds s' b ph0 k0)"
proof (induction ops arbitrary: s)
  case Nil
  then show ?case by simp
next
  case (Cons x xs)
  from Cons.prems(2) obtain s1 where s1: "shard_apply s x = Some s1" "shard_run s1 xs = Some s'"
    by (auto split: option.splits)
  from shard_apply_inv [OF Cons.prems(1) s1(1)] Cons.IH [OF _ s1(2)] show ?case
    by blast
qed

lemma slot_holds_unique:
  assumes inv: "shard_inv s" and b: "b < HASH_TABLE_ENTRIES" "slot_holds s b ph k"
    and b': "b' < HASH_TABLE_ENTRIES" "slot_holds s b' ph k"
  shows "b' = b"
proof -
  have "hash_lookup s ph k = Some (c, m_hash_table s c)"
    if "c < HASH_TABLE_ENTRIES" "slot_holds s c ph k" for c
    using inv that unfolding shard_inv_def by (auto simp: slot_holds_stored)
  from this [OF b] this [OF b'] show ?thesis
    by simp
qed

lemma slot_holds_one_pair:
  assumes "slot_holds s b ph k" "slot_holds s b ph' k'"
  shows "ph' = ph \<and> k' = k"
  using assms by (auto simp: slot_holds_stored)

text \<open>
  C4. Start from a freshly created shard and run any sequence of \<open>put\<close> and \<open>del\<close>
  calls; once slot \<open>b\<close> is assigned to the pair \<open>(primary_hash, key)\<close>, it stays
  assigned to that pair, and to no other, after every further sequence of calls, and no
  other slot of the table (the probe chain of a hash runs through the whole table) is
  assigned to the pair, deletes and reinserts of the key included.
\<close>

theorem hash_slot_stability:
  assumes "shard_run shard_create ops1 = Some s1"
    and "b < HASH_TABLE_ENTRIES" and "slot_holds s1 b ph k"
    and "shard_run s1 ops2 = Some s2"
  shows "slot_holds s2 b ph k
         \<and> (\<forall>ph' k'. slot_holds s2 b ph' k' \<longrightarrow> ph' = ph \<and> k' = k)
         \<and> (\<forall>b' < HASH_TABLE_ENTRIES. slot_holds s2 b' ph k \<longrightarrow> b' = b)"
proof -
  from shard_run_inv [OF shard_inv_create assms(1)] have i1: "shard_inv s1"
    by simp
  from shard_run_inv [OF i1 assms(4)] assms(2,3) have i2: "shard_inv s2" "slot_holds s2 b ph k"
    by simp_all
  from slot_holds_one_pair [OF i2(2)] slot_holds_unique [OF i2(1) assms(2) i2(2)] i2(2)
  show ?thesis
    by blast
qed

lemmas lookup_eval =
  hash_lookup_def hash_probe.simps probe_slot_def HASH_INTO_TABLE_def shard_constants
  data_key_size_def data_key_offset_def aligned8_def read_bytes_def write_bytes_def upt_conv_Cons
  HASH_OFFSET_INVALID_def Let_def shard_create_fields

theorem hash_slot_stability_witness:
  "(case shard_run shard_create [ShardPut 1 2 [107] [[1]] 1] of
      None \<Rightarrow> False
    | Some s1 \<Rightarrow>
        slot_holds s1 1 1 [107]
        \<and> (case shard_run s1 [ShardDel 1 [107], ShardPut 1 2 [107] [[2]] 2] of
             None \<Rightarrow> False
           | Some s2 \<Rightarrow> slot_holds s2 1 1 [107] \<and> \<not> slot_holds s2 2 1 [107]))"
proof -
  define s1 where "s1 = shard_create
        \<lparr>m_data := write_bytes (\<lambda>_. 0) 1572864
            [1, 0, 0, 0, 0, 0, 0, 0, 1, 0, 0, 0, 107, 1, 0, 1, 0, 0, 0, 1],
         m_search_log := (\<lambda>_. 0)(0 := 8589934593, Suc 0 := 1572864),
         m_hash_table := (\<lambda>_. 0)(1 := 6755399441055745),
         m_search_offset := Suc 0, msync_async_calls := Suc 0,
         m_data_offset := 1572888\<rparr>"
  define sd where "sd = s1
        \<lparr>m_search_log := (\<lambda>_. 0)(0 := 8589934593, Suc 0 := 6755502521843712),
         m_data_offset := 1572896,
         m_hash_table := (\<lambda>_. 0)(Suc 0 := 9230127436295831553)\<rparr>"
  have p1: "shard_put shard_create 1 2 [107] [[1]] 1 = Some (SUCCESS, s1)"
    unfolding s1_def
    by (simp add: put_on_create pack_record_def le_bytes_def upt_conv_Cons HASH_INTO_TABLE_def)
  have l1: "hash_lookup s1 1 [107] = Some (1, 6755399441055745)"
    unfolding s1_def by (simp add: lookup_eval)
  have h1: "slot_holds s1 1 1 [107]"
    unfolding s1_def
    by (simp add: slot_holds_def slot_empty_def slot_offset_def lookup_eval)
  have d1: "shard_del s1 1 [107] = Some (SUCCESS, sd)"
    unfolding shard_del_def l1 unfolding s1_def sd_def
    by (simp add: invalidate_search_log_def invalidate_loop.simps shard_constants
        HASH_OFFSET_INVALID_def Let_def shard_create_fields)
  have l2: "hash_lookup sd 1 [107] = Some (1, 9230127436295831553)"
    unfolding s1_def sd_def by (simp add: lookup_eval)
  have f: "m_data_offset sd = 1572896" "m_search_offset sd = 1"
    by (simp_all add: sd_def s1_def)
  have "\<exists>s2. shard_put sd 1 2 [107] [[2]] 2 = Some (SUCCESS, s2)"
    unfolding shard_put_def l2
    by (simp add: length_pack_record data_size_def shard_constants HASH_OFFSET_INVALID_def
        Let_def f shard_async_def)
  then obtain s2 where p2: "shard_put sd 1 2 [107] [[2]] 2 = Some (SUCCESS, s2)"
    by blast
  have r1: "shard_run shard_create [ShardPut 1 2 [107] [[1]] 1] = Some s1"
    by (simp only: shard_run.simps shard_apply.simps p1 option.simps snd_conv)
  have r2: "shard_run s1 [ShardDel 1 [107], ShardPut 1 2 [107] [[2]] 2] = Some s2"
    by (simp only: shard_run.simps shard_apply.simps d1 p2 option.simps snd_conv)
  have b: "(1 :: nat) < HASH_TABLE_ENTRIES" "(2 :: nat) < HASH_TABLE_ENTRIES"
    by (simp_all add: shard_constants)
  note st = hash_slot_stability [OF r1 b(1) h1 r2]
  from st have a: "slot_holds s2 1 1 [107]"
    by (rule conjunct1)
  from st have "\<forall>b' < HASH_TABLE_ENTRIES. slot_holds s2 b' 1 [107] \<longrightarrow> b' = 1"
    by (rule conjunct2 [THEN conjunct2])
  with b(2) have n: "\<not> slot_holds s2 2 1 [107]"
    by fastforce
  show ?thesis
    by (simp only: r1 r2 option.case h1 a n simp_thms)
qed

section \<open>A full shard\<close>

lemma unat_of_nat32: "n < 4294967296 \<Longrightarrow> unat (of_nat n :: uint32) = n"
  by (rule of_nat_inverse [OF refl]) simp

lemma unat_fill_offset:
  assumes "b \<le> 65536"
  shows "unat (fill_offset b) = 1572864 + 24 * b"
proof -
  have "INDEX_SEGMENT_SIZE + 24 * b < 4294967296"
    using assms by (simp add: shard_constants)
  then have "unat (fill_offset b) = INDEX_SEGMENT_SIZE + 24 * b"
    unfolding fill_offset_def by (rule unat_of_nat32)
  then show ?thesis
    by (simp add: shard_constants)
qed

lemma fill_offset_valid:
  assumes "b \<le> 65536"
  shows "fill_offset b < HASH_OFFSET_INVALID" "fill_offset b \<noteq> 0" "aligned8 (fill_offset b)"
proof -
  note u = unat_fill_offset [OF assms]
  show "fill_offset b < HASH_OFFSET_INVALID"
    using assms by (simp add: word_less_nat_alt u HASH_OFFSET_INVALID_def)
  show "fill_offset b \<noteq> 0"
    using u by (auto simp: unat_eq_0 [symmetric] simp del: unat_eq_0)
  have "8 dvd unat (fill_offset b)"
    unfolding u by presburger
  moreover have "unat (fill_offset b) + 7 < 2 ^ 32"
    using assms u by simp
  ultimately show "aligned8 (fill_offset b)"
    by (simp add: aligned8_iff)
qed

lemma fill_key_inj:
  assumes "i < 4294967296" "j < 4294967296" "fill_key i = fill_key j"
  shows "i = j"
proof -
  have "(of_nat i :: uint32) = of_nat j"
    using assms(3) le_word_le_bytes32 unfolding fill_key_def by metis
  then have "unat (of_nat i :: uint32) = unat (of_nat j :: uint32)"
    by simp
  then show ?thesis
    using assms(1,2) by (simp only: unat_of_nat32)
qed

lemma length_fill_key [simp]: "length (fill_key i) = 4"
  by (simp add: fill_key_def le_bytes_def)

lemma HASH_INTO_TABLE_small: "b < 65536 \<Longrightarrow> HASH_INTO_TABLE b = b"
  by (simp add: HASH_INTO_TABLE_def shard_constants)

lemma fill_slot:
  assumes "fill_inv n s" "n \<le> 65536" "b < n"
  shows "\<not> slot_empty s b" "slot_offset s b = fill_offset b"
    "(ucast (m_hash_table s b) :: uint32) = fill_hash"
    "stored_key s (slot_offset s b) = Some (fill_key b)"
proof -
  have b: "b \<le> 65536"
    using assms by simp
  have t: "m_hash_table s b = push_bit 32 (ucast (fill_offset b)) OR ucast fill_hash"
    using assms by (simp add: fill_inv_def)
  show "\<not> slot_empty s b"
    using fill_offset_valid(2) [OF b] by (simp only: slot_empty_def t slot_word_offset) simp
  show o: "slot_offset s b = fill_offset b"
    using fill_offset_valid(1) [OF b] by (simp only: slot_offset_def t slot_word_offset masked_valid)
  show "(ucast (m_hash_table s b) :: uint32) = fill_hash"
    by (simp only: t slot_word_hash)
  show "stored_key s (slot_offset s b) = Some (fill_key b)"
    using assms by (simp add: o fill_inv_def)
qed

lemma fill_slot_empty:
  assumes "fill_inv n s" "n \<le> b"
  shows "slot_empty s b" "m_hash_table s b = 0"
  using assms by (simp_all add: fill_inv_def slot_empty_def)

lemma fill_probe:
  assumes "fill_inv n s" "n \<le> 65536" "b < n"
  shows "probe_slot s fill_hash k b = Some (fill_key b = k)"
  using probe_slot_holds [OF fill_slot(1) [OF assms] fill_slot(4) [OF assms], of fill_hash k]
  by (simp add: fill_slot(3) [OF assms])

lemma fill_hash_probe_new:
  assumes inv: "fill_inv n s" and n: "n < 65536" and new: "\<forall>b < n. fill_key b \<noteq> k"
  shows "off \<le> n \<Longrightarrow> hash_probe s fill_hash k 0 off = Some (n, 0)"
proof (induction "n - off" arbitrary: off)
  case 0
  then have e: "off = n" by simp
  have "probe_slot s fill_hash k n = Some True"
    by (rule probe_slot_empty) (rule fill_slot_empty(1) [OF inv order_refl])
  then show ?case
    using n fill_slot_empty(2) [OF inv order_refl]
    by (subst hash_probe.simps) (simp add: e HASH_INTO_TABLE_small shard_constants)
next
  case (Suc m)
  then have lt: "off < n" by simp
  have "probe_slot s fill_hash k off = Some False"
    using fill_probe [OF inv _ lt, of k] n new lt by simp
  moreover have "hash_probe s fill_hash k 0 (off + 1) = Some (n, 0)"
    using Suc by simp
  ultimately show ?case
    using n lt by (subst hash_probe.simps) (simp add: HASH_INTO_TABLE_small shard_constants)
qed

lemma fill_hash_probe_full:
  assumes inv: "fill_inv 65536 s" and new: "\<forall>b < 65536. fill_key b \<noteq> k"
  shows "off \<le> 65536 \<Longrightarrow> hash_probe s fill_hash k 0 off = None"
proof (induction "65536 - off" arbitrary: off)
  case 0
  then show ?case
    by (subst hash_probe.simps) (simp add: shard_constants)
next
  case (Suc m)
  then have lt: "off < 65536" by simp
  have "probe_slot s fill_hash k off = Some False"
    using fill_probe [OF inv _ lt, of k] new lt by simp
  moreover have "hash_probe s fill_hash k 0 (off + 1) = None"
    using Suc by simp
  ultimately show ?case
    using lt by (subst hash_probe.simps) (simp add: HASH_INTO_TABLE_small shard_constants)
qed

lemma hash_lookup_fill_hash: "hash_lookup s fill_hash k = hash_probe s fill_hash k 0 0"
  by (simp add: hash_lookup_def fill_hash_def HASH_INTO_TABLE_def shard_constants)

lemma fill_inv_create: "fill_inv 0 shard_create"
  by (simp add: fill_inv_def shard_create_fields fill_offset_def shard_constants)

lemma fill_put:
  assumes inv: "fill_inv n s" and n: "n < 65536"
  shows "\<exists>s'. shard_put s fill_hash 0 (fill_key n) fill_value 1 = Some (SUCCESS, s')
     \<and> m_hash_table s' = (m_hash_table s)(n := push_bit 32 (ucast (fill_offset n)) OR ucast fill_hash)
     \<and> m_search_log s' = (m_search_log s)(n * 2 := push_bit 32 (ucast (0 :: uint32)) OR ucast fill_hash,
                                          n * 2 + 1 := ucast (fill_offset n))
     \<and> m_data s' = write_bytes (m_data s) (unat (fill_offset n)) (pack_record (fill_key n) fill_value 1)
     \<and> m_data_offset s' = (fill_offset n + 23 + 7) AND NOT 7
     \<and> m_search_offset s' = Suc n"
proof -
  have new: "\<forall>b < n. fill_key b \<noteq> fill_key n"
  proof (intro allI impI notI)
    fix b assume "b < n" and e: "fill_key b = fill_key n"
    then have "b < 4294967296" "n < 4294967296"
      using n by simp_all
    from fill_key_inj [OF this e] \<open>b < n\<close> show False
      by simp
  qed
  have hl: "hash_lookup s fill_hash (fill_key n) = Some (n, 0)"
    using fill_hash_probe_new [OF inv n new, of 0] by (simp add: hash_lookup_fill_hash)
  have off: "m_data_offset s = fill_offset n" "m_search_offset s = n"
    using inv by (simp_all add: fill_inv_def)
  have u: "unat (fill_offset n) = 1572864 + 24 * n"
    using n by (simp add: unat_fill_offset)
  have ds: "data_size (fill_key n) fill_value = 23"
    by (simp add: data_size_def fill_value_def)
  have lp: "length (pack_record (fill_key n) fill_value 1) = 23"
    by (simp add: length_pack_record ds)
  show ?thesis
    unfolding shard_put_def
    using n
    by (simp add: ds lp hl off u Let_def invalidate_search_log_zero shard_constants
        HASH_OFFSET_INVALID_def shard_async_def)
qed

lemma fill_offset_next:
  assumes "n < 65536"
  shows "(fill_offset n + 23 + 7) AND NOT 7 = fill_offset (Suc n)"
proof -
  have u: "unat (fill_offset n) = 1572864 + 24 * n"
    using assms by (simp add: unat_fill_offset)
  have p: "unat (fill_offset n + 23) = unat (fill_offset n) + 23"
    using assms unat_plus_small [of "fill_offset n" 23] by (simp add: u)
  have "unat ((fill_offset n + 23 + 7) AND NOT 7) = (unat (fill_offset n + 23) + 7) div 8 * 8"
    using assms by (intro unat_align_up) (simp add: p u)
  also have "\<dots> = 1572864 + 24 * Suc n"
    unfolding p u by presburger
  also have "\<dots> = unat (fill_offset (Suc n))"
    using assms by (simp add: unat_fill_offset)
  finally show ?thesis
    by (simp only: word_unat_eq_iff)
qed

lemma fill_step:
  assumes inv: "fill_inv n s" and n: "n < 65536"
  shows "\<exists>s'. shard_put s fill_hash 0 (fill_key n) fill_value 1 = Some (SUCCESS, s')
               \<and> fill_inv (Suc n) s'"
proof -
  from fill_put [OF inv n] obtain s' where
    put: "shard_put s fill_hash 0 (fill_key n) fill_value 1 = Some (SUCCESS, s')"
    and tab: "m_hash_table s' = (m_hash_table s)(n := push_bit 32 (ucast (fill_offset n)) OR ucast fill_hash)"
    and log: "m_search_log s' = (m_search_log s)(n * 2 := push_bit 32 (ucast (0 :: uint32)) OR ucast fill_hash,
                                          n * 2 + 1 := ucast (fill_offset n))"
    and dat: "m_data s' = write_bytes (m_data s) (unat (fill_offset n)) (pack_record (fill_key n) fill_value 1)"
    and off: "m_data_offset s' = (fill_offset n + 23 + 7) AND NOT 7"
    and so: "m_search_offset s' = Suc n"
    by blast
  have t0: "\<And>b. m_hash_table s b =
            (if b < n then push_bit 32 (ucast (fill_offset b)) OR ucast fill_hash else 0)"
    and l0: "\<And>i. m_search_log s (2 * i + 1) = (if i < n then ucast (fill_offset i) else 0)"
    and k0: "\<And>b. b < n \<Longrightarrow> stored_key s (fill_offset b) = Some (fill_key b)"
    using inv by (simp_all add: fill_inv_def)
  have 1: "m_data_offset s' = fill_offset (Suc n)"
    unfolding off by (rule fill_offset_next [OF n])
  have 2: "m_hash_table s' b =
            (if b < Suc n then push_bit 32 (ucast (fill_offset b)) OR ucast fill_hash else 0)" for b
    unfolding tab by (simp add: t0 less_Suc_eq)
  have par: "2 * i + 1 \<noteq> n * 2" for i :: nat
    by presburger
  have 3: "m_search_log s' (2 * i + 1) = (if i < Suc n then ucast (fill_offset i) else 0)" for i
    unfolding log using par [of i] l0 [of i] by (auto simp: less_Suc_eq)
  have 4: "stored_key s' (fill_offset b) = Some (fill_key b)" if "b < Suc n" for b
  proof (cases "b = n")
    case True
    have "aligned8 (fill_offset n)"
      using n by (intro fill_offset_valid(3)) simp
    with dat show ?thesis
      unfolding True by (rule stored_key_written) simp
  next
    case False
    with that have lt: "b < n" by simp
    have "unat (fill_offset b) + 12 + length (fill_key b) \<le> unat (fill_offset n)"
      using lt n by (simp add: unat_fill_offset)
    from stored_key_write_above [OF k0 [OF lt] this dat] show ?thesis .
  qed
  have "fill_inv (Suc n) s'"
    unfolding fill_inv_def using so 1 2 3 4 by blast
  with put show ?thesis
    by blast
qed

lemma filled_shard_inv:
  "n \<le> 65536 \<Longrightarrow> \<exists>s. filled_shard n = Some s \<and> fill_inv n s"
proof (induction n)
  case 0
  show ?case
    by (simp add: fill_inv_create)
next
  case (Suc n)
  then obtain s where s: "filled_shard n = Some s" "fill_inv n s"
    by auto
  from fill_step [OF s(2)] Suc.prems obtain s' where
    "shard_put s fill_hash 0 (fill_key n) fill_value 1 = Some (SUCCESS, s')" "fill_inv (Suc n) s'"
    by auto
  with s(1) show ?case
    by simp
qed

lemma full_shard_inv: "filled_shard HASH_TABLE_ENTRIES = Some full_shard" "fill_inv 65536 full_shard"
  using filled_shard_inv [of 65536] by (auto simp: full_shard_def shard_constants)

lemma fill_key_new: "\<forall>b < 65536. fill_key b \<noteq> fill_key 65536"
proof (intro allI impI notI)
  fix b :: nat assume "b < 65536" and e: "fill_key b = fill_key 65536"
  then have "b < 4294967296" "(65536 :: nat) < 4294967296"
    by simp_all
  from fill_key_inj [OF this e] \<open>b < 65536\<close> show False
    by simp
qed

lemma shard_get_full:
  assumes "fill_inv 65536 s" "\<forall>b < 65536. fill_key b \<noteq> k"
  shows "shard_get s fill_hash k out = None"
  using fill_hash_probe_full [OF assms, of 0]
  by (simp add: shard_get_def hash_lookup_fill_hash)

lemma shard_put_full:
  assumes "fill_inv 65536 s"
  shows "shard_put s ph sh (fill_key i) fill_value ver = Some (SEARCHFULL, s)"
proof -
  have "m_search_offset s = 65536" "unat (m_data_offset s) = 1572864 + 24 * 65536"
    using assms unat_fill_offset [of 65536] by (simp_all add: fill_inv_def)
  then show ?thesis
    by (simp add: shard_put_def data_size_def fill_value_def shard_constants)
qed

lemma low_half:
  "(ucast (ucast (w :: uint32) :: uint64) :: uint32) = w"
  "(ucast (drop_bit 32 (ucast (w :: uint32) :: uint64)) :: uint32) = 0"
  using slot_word_hash(1) [of 0 w] slot_word_offset(1) [of 0 w] by simp_all

lemma stale_loop_full:
  assumes inv: "fill_inv 65536 s"
  shows "1 \<le> i \<Longrightarrow> i \<le> 65536 \<Longrightarrow>
         stale_loop s i st e sd sn =
           (65536, (if i = 65536 then st else fill_offset 65535),
            (if i = 65536 then e else fill_offset 65535), sd, sn)"
proof (induction "65536 - i" arbitrary: i st e)
  case 0
  then show ?case
    by (subst stale_loop.simps) (simp add: shard_constants)
next
  case (Suc m)
  then have lt: "i < 65536" by simp
  have l: "m_search_log s (2 * i + 1) = ucast (fill_offset i)"
    using inv lt unfolding fill_inv_def by metis
  have nz: "fill_offset i \<noteq> 0"
    using lt by (intro fill_offset_valid(2)) simp
  have ih: "stale_loop s (i + 1) (fill_offset i) (fill_offset i) sd sn =
      (65536, (if i + 1 = 65536 then fill_offset i else fill_offset 65535),
       (if i + 1 = 65536 then fill_offset i else fill_offset 65535), sd, sn)"
    using Suc by (intro Suc.hyps(1)) simp_all
  have "stale_loop s i st e sd sn = stale_loop s (i + 1) (fill_offset i) (fill_offset i) sd sn"
    using lt nz by (subst stale_loop.simps) (simp only: l low_half shard_constants, simp)
  with ih lt show ?case
    by auto
qed

lemma stale_space_full:
  assumes inv: "fill_inv 65536 s"
  shows "stale_space s = 0"
proof -
  have "m_search_log s (2 * 0 + 1) = ucast (fill_offset 0)"
    using inv unfolding fill_inv_def by (metis zero_less_numeral)
  then have l: "m_search_log s 1 = ucast (fill_offset 0)"
    by simp
  have o: "m_data_offset s = fill_offset 65536"
    using inv by (simp add: fill_inv_def)
  have le: "fill_offset 65535 \<le> fill_offset 65536"
    by (simp add: word_le_nat_alt unat_fill_offset)
  have d: "unat (fill_offset 65536 - fill_offset 65535) = 24"
    using le by (simp add: unat_sub unat_fill_offset)
  have nz: "fill_offset 65536 \<noteq> fill_offset 65535"
  proof
    assume "fill_offset 65536 = fill_offset 65535"
    then have "unat (fill_offset 65536) = unat (fill_offset 65535)"
      by simp
    then show False
      by (simp add: unat_fill_offset)
  qed
  have "stale_totals s = (24, 1)"
    unfolding stale_totals_def
    by (simp add: stale_loop_full [OF inv] l low_half o d nz shard_constants)
  then show ?thesis
    by (simp add: stale_space_def shard_constants)
qed

section \<open>Stale space (C6)\<close>

text \<open>
  C6. \<open>stale_space()\<close> should equal the larger of the two percentages of the stale
  bytes and the stale entries, an entry being stale when its own invalidator is nonzero
  and weighing its own record length. The code does not compute this. After one
  \<open>put\<close> of a record with a 128 MiB attribute into a fresh shard, no entry of the
  search log is invalidated, so the quantity of the specification is 0, while
  \<open>stale_space()\<close> is 50: the scan adds the bytes between the last entry and
  \<open>m_data_offset\<close> whatever the entry's state (and, inside the loop, pairs the
  invalidator of entry \<open>i\<close> with the length of entry \<open>i - 1\<close>).
\<close>

theorem stale_space_counts_live_record:
  "map_option (stale_space \<circ> snd) (shard_put shard_create 1 2 [107] big_value 1) = Some 50
   \<and> map_option (stale_space_spec \<circ> snd) (shard_put shard_create 1 2 [107] big_value 1) = Some 0"
proof
  show "map_option (stale_space \<circ> snd) (shard_put shard_create 1 2 [107] big_value 1) = Some 50"
    by (simp add: put_on_create big_value_def stale_space_def stale_totals_def stale_loop.simps)
  have "stale_space_spec s = 0"
    if "m_search_log s = (\<lambda>_. 0)(0 := push_bit 32 2 OR 1, Suc 0 := 1572864)" for s
    using that by (intro stale_space_spec_no_stale) (simp add: entry_stale_def)
  then show "map_option (stale_space_spec \<circ> snd) (shard_put shard_create 1 2 [107] big_value 1) = Some 0"
    by (simp add: put_on_create big_value_def)
qed

section \<open>The msync of \<open>put\<close> (C7)\<close>

text \<open>
  C7. A successful \<open>put\<close> should trigger the asynchronous msync exactly when the data
  offset crosses a 4 MiB boundary. The test of the code,
  \<^verbatim>\<open>(m_data_offset & ~(1 << 22)) != (new_data_offset & ~(1 << 22))\<close>, clears bit 22 only
  and compares all other bits. The first \<open>put\<close> of a 32-byte record into a fresh shard
  moves the offset from 1572864 to 1572896, inside one 4 MiB block, and issues the msync.
\<close>

theorem put_msync_without_crossing:
  "map_option (fst) (shard_put shard_create 1 2 [1, 2, 3] [[4, 5], [6]] 9) = Some SUCCESS
   \<and> map_option (m_data_offset \<circ> snd) (shard_put shard_create 1 2 [1, 2, 3] [[4, 5], [6]] 9)
       = Some 1572896
   \<and> map_option (msync_async_calls \<circ> snd) (shard_put shard_create 1 2 [1, 2, 3] [[4, 5], [6]] 9)
       = Some (msync_async_calls shard_create + 1)
   \<and> \<not> crosses_4MiB (m_data_offset shard_create) 1572896"
  by (simp add: put_on_create crosses_4MiB_def)

section \<open>The write-ahead log\<close>

lemma wal_scan_snoc:
  "wal_scan (es @ [e]) c k st =
     (case wal_scan es c k st of None \<Rightarrow> None | Some st' \<Rightarrow> wal_step c k st' e)"
  by (induction es arbitrary: st) (auto split: option.splits)

lemma wal_step_other:
  "\<not> (primary_contains (entry_coord e) c \<and> entry_key e = k) \<Longrightarrow> wal_step c k st e = Some st"
  by (cases st) (auto simp: wal_step_def)

lemma wal_step_put:
  "primary_contains (entry_coord e) c \<Longrightarrow> entry_key e = k \<Longrightarrow> wal_entry_ok e \<Longrightarrow>
   secondary_mask (entry_coord e) = UINT32_MAX \<Longrightarrow>
   wal_step c k st e = Some (True, SUCCESS, entry_value e, entry_version e)"
  by (cases st) (simp add: wal_step_def wal_entry_ok_def)

lemma wal_step_del:
  "primary_contains (entry_coord e) c \<Longrightarrow> entry_key e = k \<Longrightarrow> wal_entry_ok e \<Longrightarrow>
   secondary_mask (entry_coord e) \<noteq> UINT32_MAX \<Longrightarrow>
   wal_step c k (found, wal_res, out) e = Some (True, NOTFOUND, out)"
  by (auto simp add: wal_step_def wal_entry_ok_def)

lemma wal_scan_result:
  assumes "\<forall>e \<in> set es. wal_entry_ok e"
  shows "\<exists>st'. wal_scan es c k st = Some st'
     \<and> (wal_matching es c k = [] \<longrightarrow> st' = st)
     \<and> (wal_matching es c k \<noteq> [] \<longrightarrow>
          fst st'
          \<and> (secondary_mask (entry_coord (last (wal_matching es c k))) = UINT32_MAX \<longrightarrow>
               st' = (True, SUCCESS, entry_value (last (wal_matching es c k)),
                      entry_version (last (wal_matching es c k))))
          \<and> (secondary_mask (entry_coord (last (wal_matching es c k))) \<noteq> UINT32_MAX \<longrightarrow>
               fst (snd st') = NOTFOUND))"
  using assms
proof (induction es rule: rev_induct)
  case Nil
  show ?case by (simp add: wal_matching_def)
next
  case (snoc e es)
  then obtain st1 where st1: "wal_scan es c k st = Some st1"
    and unch: "wal_matching es c k = [] \<longrightarrow> st1 = st"
    and ch: "wal_matching es c k \<noteq> [] \<longrightarrow>
          fst st1
          \<and> (secondary_mask (entry_coord (last (wal_matching es c k))) = UINT32_MAX \<longrightarrow>
               st1 = (True, SUCCESS, entry_value (last (wal_matching es c k)),
                      entry_version (last (wal_matching es c k))))
          \<and> (secondary_mask (entry_coord (last (wal_matching es c k))) \<noteq> UINT32_MAX \<longrightarrow>
               fst (snd st1) = NOTFOUND)"
    by auto
  have ok: "wal_entry_ok e"
    using snoc.prems by simp
  show ?case
  proof (cases "primary_contains (entry_coord e) c \<and> entry_key e = k")
    case False
    then have "wal_matching (es @ [e]) c k = wal_matching es c k"
      by (auto simp: wal_matching_def)
    with False st1 unch ch show ?thesis
      by (simp add: wal_scan_snoc wal_step_other)
  next
    case True
    then have m: "wal_matching (es @ [e]) c k = wal_matching es c k @ [e]"
      by (simp add: wal_matching_def)
    obtain f r out where s: "st1 = (f, r, out)"
      by (cases st1) auto
    show ?thesis
    proof (cases "secondary_mask (entry_coord e) = UINT32_MAX")
      case sm: True
      with True ok st1 show ?thesis
        by (simp add: wal_scan_snoc m wal_step_put)
    next
      case sm: False
      with True ok st1 s show ?thesis
        by (simp add: wal_scan_snoc m wal_step_del)
    qed
  qed
qed



section \<open>The WAL in \<open>get\<close>, \<open>put\<close> and \<open>del\<close>\<close>

lemma disk_apply_fields:
  "m_shards (disk_apply hf d op) = m_shards d \<and> m_arity (disk_apply hf d op) = m_arity d
   \<and> (\<exists>es. m_log (disk_apply hf d op) = m_log d @ es
        \<and> (\<forall>e \<in> set es. wal_entry_ok e \<and> entry_key e = op_key op))"
  by (cases op)
    (auto simp: disk_put_def disk_del_def Let_def wal_entry_ok_def log_entry_put_def
      log_entry_del_def get_coordinate_def get_coordinate_value_def mk_coordinate_def)

lemma disk_run_fields:
  "m_shards (disk_run hf d ops) = m_shards d \<and> m_arity (disk_run hf d ops) = m_arity d
   \<and> (\<exists>es. m_log (disk_run hf d ops) = m_log d @ es
        \<and> (\<forall>e \<in> set es. wal_entry_ok e \<and> entry_key e \<in> op_key ` set ops))"
proof (induction ops rule: rev_induct)
  case Nil
  show ?case by (simp add: disk_run_def)
next
  case (snoc op ops)
  let ?d = "disk_run hf d ops"
  have r: "disk_run hf d (ops @ [op]) = disk_apply hf ?d op"
    by (simp add: disk_run_def)
  from snoc obtain es where es: "m_log ?d = m_log d @ es"
    "\<forall>e \<in> set es. wal_entry_ok e \<and> entry_key e \<in> op_key ` set ops"
    by blast
  from disk_apply_fields [of hf ?d op] obtain es' where es': "m_log (disk_apply hf ?d op) = m_log ?d @ es'"
    "\<forall>e \<in> set es'. wal_entry_ok e \<and> entry_key e = op_key op"
    by blast
  have "m_log (disk_run hf d (ops @ [op])) = m_log d @ (es @ es')"
    using es(1) es'(1) r by simp
  moreover have "\<forall>e \<in> set (es @ es'). wal_entry_ok e \<and> entry_key e \<in> op_key ` set (ops @ [op])"
    using es(2) es'(2) by auto
  ultimately have "\<exists>es. m_log (disk_run hf d (ops @ [op])) = m_log d @ es
        \<and> (\<forall>e \<in> set es. wal_entry_ok e \<and> entry_key e \<in> op_key ` set (ops @ [op]))"
    by blast
  moreover have "m_shards (disk_run hf d (ops @ [op])) = m_shards d"
    "m_arity (disk_run hf d (ops @ [op])) = m_arity d"
    using snoc disk_apply_fields [of hf ?d op] r by simp_all
  ultimately show ?case by blast
qed

lemma put_entry_matches:
  "primary_contains (get_coordinate_value hf k v) (get_coordinate hf k)"
  by (simp add: primary_contains_def get_coordinate_def get_coordinate_value_def
      mk_coordinate_def)

lemma disk_get_by_parts:
  assumes "shard_walk (m_shards d) (get_coordinate hf k) k (NOTFOUND, out) = Some (shard_res, out1)"
    and "wal_scan (m_log d) (get_coordinate hf k) k (False, NOTFOUND, out1) = Some (found, wal_res, out2)"
  shows "disk_get hf d k out = Some (if found then wal_res else shard_res, out2)"
  using assms by (simp add: disk_get_def)

text \<open>
  The scan of the WAL in \<open>get\<close> is as the specification describes it. When the walk
  over the shards comes back, then after \<open>put(k, v, ver)\<close> with a value of the disk's
  arity, and any further puts and deletes of other keys, \<open>get(k)\<close> returns
  \<open>Found(v, ver)\<close>, whatever the shards hold for \<open>k\<close>.
\<close>

lemma wal_visibility_after_walk:
  assumes arity: "length v + 1 = unat (m_arity d)"
    and others: "\<forall>op \<in> set ops. op_key op \<noteq> k"
    and wal: "\<forall>e \<in> set (m_log d). wal_entry_ok e"
    and walk: "shard_walk (m_shards d) (get_coordinate hf k) k (NOTFOUND, out) \<noteq> None"
  shows "disk_get hf (disk_run hf (snd (disk_put hf d k v ver)) ops) k out = Some (SUCCESS, v, ver)"
proof -
  let ?c = "get_coordinate hf k"
  let ?pe = "log_entry_put (get_coordinate_value hf k v) k v ver"
  let ?d1 = "snd (disk_put hf d k v ver)"
  let ?d2 = "disk_run hf ?d1 ops"
  have d1: "m_log ?d1 = m_log d @ [?pe]" "m_shards ?d1 = m_shards d"
    using arity by (simp_all add: disk_put_def Let_def)
  from disk_run_fields [of hf ?d1 ops] obtain es
    where es: "m_log ?d2 = m_log ?d1 @ es"
      "\<forall>e \<in> set es. wal_entry_ok e \<and> entry_key e \<in> op_key ` set ops"
      and sh: "m_shards ?d2 = m_shards d"
    using d1(2) by auto
  have pe: "wal_entry_ok ?pe" "entry_key ?pe = k" "primary_contains (entry_coord ?pe) ?c"
    "secondary_mask (entry_coord ?pe) = UINT32_MAX" "entry_value ?pe = v" "entry_version ?pe = ver"
    by (simp_all add: wal_entry_ok_def log_entry_put_def put_entry_matches)
      (simp_all add: get_coordinate_value_def mk_coordinate_def)
  have log: "m_log ?d2 = m_log d @ [?pe] @ es"
    using es(1) d1(1) by simp
  have "entry_key e \<noteq> k" if "e \<in> set es" for e
    using es(2) others that by (fastforce simp: image_iff)
  then have no: "wal_matching es ?c k = []"
    by (simp add: wal_matching_def filter_empty_conv)
  have m: "wal_matching (m_log ?d2) ?c k = wal_matching (m_log d) ?c k @ [?pe]"
    using no pe(2,3) unfolding log wal_matching_def by simp
  have ok: "\<forall>e \<in> set (m_log ?d2). wal_entry_ok e"
    using wal es(2) pe(1) unfolding log by auto
  obtain shard_res out1 where w: "shard_walk (m_shards ?d2) ?c k (NOTFOUND, out) = Some (shard_res, out1)"
    using walk sh by (cases "shard_walk (m_shards d) ?c k (NOTFOUND, out)") auto
  from wal_scan_result [OF ok, of ?c k "(False, NOTFOUND, out1)"] m pe(4,5,6)
  have "wal_scan (m_log ?d2) ?c k (False, NOTFOUND, out1) = Some (True, SUCCESS, v, ver)"
    by auto
  from disk_get_by_parts [OF w this] show ?thesis
    by simp
qed

text \<open>
  When the walk over the shards comes back with a result, the last of the pending WAL
  entries whose coordinate primary-contains the coordinate of \<open>k\<close> and whose key is
  \<open>k\<close> decides \<open>get(k)\<close>: \<open>Found\<close> with its value and version if it is a put entry,
  \<open>NotFound\<close> if it is a delete entry; when there is none, the result of the walk is
  returned.
\<close>

lemma wal_last_match_after_walk:
  assumes wal: "\<forall>e \<in> set (m_log d). wal_entry_ok e"
    and walk: "shard_walk (m_shards d) (get_coordinate hf k) k (NOTFOUND, out) = Some (shard_res, out1)"
  shows "(wal_matching (m_log d) (get_coordinate hf k) k = [] \<longrightarrow>
            disk_get hf d k out = Some (shard_res, out1))
         \<and> (wal_matching (m_log d) (get_coordinate hf k) k \<noteq> [] \<longrightarrow>
              (secondary_mask (entry_coord (last (wal_matching (m_log d) (get_coordinate hf k) k)))
                 = UINT32_MAX \<longrightarrow>
               disk_get hf d k out =
                 Some (SUCCESS,
                       entry_value (last (wal_matching (m_log d) (get_coordinate hf k) k)),
                       entry_version (last (wal_matching (m_log d) (get_coordinate hf k) k))))
              \<and> (secondary_mask (entry_coord (last (wal_matching (m_log d) (get_coordinate hf k) k)))
                   = 0 \<longrightarrow>
                 map_option fst (disk_get hf d k out) = Some NOTFOUND))"
proof -
  let ?c = "get_coordinate hf k"
  from wal_scan_result [OF wal, of ?c k "(False, NOTFOUND, out1)"]
  obtain found wal_res out2 where
    scan: "wal_scan (m_log d) ?c k (False, NOTFOUND, out1) = Some (found, wal_res, out2)"
    and none: "wal_matching (m_log d) ?c k = [] \<longrightarrow> (found, wal_res, out2) = (False, NOTFOUND, out1)"
    and some: "wal_matching (m_log d) ?c k \<noteq> [] \<longrightarrow>
          found
          \<and> (secondary_mask (entry_coord (last (wal_matching (m_log d) ?c k))) = UINT32_MAX \<longrightarrow>
               (found, wal_res, out2) = (True, SUCCESS, entry_value (last (wal_matching (m_log d) ?c k)),
                      entry_version (last (wal_matching (m_log d) ?c k))))
          \<and> (secondary_mask (entry_coord (last (wal_matching (m_log d) ?c k))) \<noteq> UINT32_MAX \<longrightarrow>
               wal_res = NOTFOUND)"
    by (metis prod.collapse)
  have g: "disk_get hf d k out = Some (if found then wal_res else shard_res, out2)"
    by (rule disk_get_by_parts [OF walk scan])
  have z: "(0 :: uint32) \<noteq> UINT32_MAX"
    by (simp add: UINT32_MAX_def)
  show ?thesis
    using none some g z by auto
qed

text \<open>
  C5. \<open>put\<close> returns \<open>WrongArity\<close> exactly when the number of attributes plus one
  differs from the arity; otherwise it returns \<open>Success\<close> and the disk differs only by
  one entry appended to the WAL. \<open>del\<close> returns \<open>Success\<close> and appends one entry.
  Neither changes the shard vector or any shard in it.
\<close>

theorem put_del_only_append:
  "(fst (disk_put hf d k v ver) = WRONGARITY \<longleftrightarrow> length v + 1 \<noteq> unat (m_arity d))
   \<and> (length v + 1 = unat (m_arity d) \<longrightarrow>
        disk_put hf d k v ver =
          (SUCCESS, d\<lparr>m_log := m_log d @ [log_entry_put (get_coordinate_value hf k v) k v ver]\<rparr>))
   \<and> m_shards (snd (disk_put hf d k v ver)) = m_shards d
   \<and> disk_del hf d k = (SUCCESS, d\<lparr>m_log := m_log d @ [log_entry_del (get_coordinate hf k) k]\<rparr>)
   \<and> m_shards (snd (disk_del hf d k)) = m_shards d"
  by (simp add: disk_put_def disk_del_def Let_def)

section \<open>The first shard (C10)\<close>

lemma start_contains_all:
  "contains (mk_coordinate 0 0 0 0) c" "primary_contains (mk_coordinate 0 0 0 0) c"
  by (simp_all add: contains_def primary_contains_def secondary_contains_def mk_coordinate_def)

text \<open>
  C10. The constructor, when it does not throw, leaves exactly one shard, of coordinate
  \<open>(0, 0, 0, 0)\<close>; that coordinate contains and primary-contains every coordinate, so
  every coordinate has a candidate shard in the new disk, for \<open>get\<close> and \<open>del\<close>
  (primary containment) and for \<open>put\<close> (containment). It throws only when the
  directory or the shard file cannot be made.
\<close>

theorem disk_new_one_shard:
  "case disk_new mkdir_ok open_ok create_ok files arity of
     Inl e \<Rightarrow> \<not> (mkdir_ok \<and> open_ok \<and> create_ok)
   | Inr d \<Rightarrow>
       map fst (m_shards d) = [mk_coordinate 0 0 0 0]
       \<and> (\<forall>c. contains (mk_coordinate 0 0 0 0) c \<and> primary_contains (mk_coordinate 0 0 0 0) c)
       \<and> (\<forall>c. \<exists>i < length (m_shards d).
              primary_contains (fst (m_shards d ! i)) c \<and> contains (fst (m_shards d ! i)) c)"
  by (auto simp: disk_new_def create_shard_def shard_create_file_def Let_def start_contains_all
      split: sum.splits)


lemma shard_walk_fresh:
  "ucast (CityHash64 hf k) \<noteq> (0 :: uint32) \<Longrightarrow>
   shard_walk (m_shards (disk_with_region c0)) (get_coordinate hf k) k (NOTFOUND, out)
     = (if primary_contains c0 (get_coordinate hf k) then Some (NOTFOUND, out) else Some (NOTFOUND, out))"
  by (simp add: disk_with_region_def shard_get_def get_coordinate_def mk_coordinate_def
      hash_lookup_create)

lemma wal_visibility_example:
  "disk_get example_hashing
     (disk_run example_hashing
        (snd (disk_put example_hashing (disk_with_region (mk_coordinate 0 0 0 0)) [97] [[49]] 1))
        [Put [98] [[50]] 2, Del [99]])
     [97] ([], 0)
   = Some (SUCCESS, [[49]], 1)"
proof -
  let ?d = "disk_with_region (mk_coordinate 0 0 0 0)"
  have a: "length [[49 :: uint8]] + 1 = unat (m_arity ?d)"
    by (simp add: disk_with_region_def)
  have b: "\<forall>op \<in> set [Put [98] [[50]] 2, Del [99]]. op_key op \<noteq> [97]"
    by simp
  have c: "\<forall>e \<in> set (m_log ?d). wal_entry_ok e"
    by (simp add: disk_with_region_def)
  have d: "shard_walk (m_shards ?d) (get_coordinate example_hashing [97]) [97] (NOTFOUND, ([], 0)) \<noteq> None"
    by (simp add: shard_walk_fresh example_hashing_def)
  show ?thesis
    by (rule wal_visibility_after_walk [OF a b c d])
qed

lemma wal_last_match_example:
  "map_option fst
     (disk_get example_hashing
        (disk_run example_hashing (disk_with_region (mk_coordinate 0 0 0 0))
           [Put [97] [[49]] 1, Del [97]])
        [97] ([], 0))
   = Some NOTFOUND"
proof -
  define d0 where "d0 = disk_with_region (mk_coordinate 0 0 0 0)"
  define d where "d = disk_run example_hashing d0 [Put [97] [[49]] 1, Del [97]]"
  define c where "c = get_coordinate example_hashing [97]"
  have log: "m_log d =
      [log_entry_put (get_coordinate_value example_hashing [97] [[49]]) [97] [[49]] 1,
       log_entry_del c [97]]"
    and sh: "m_shards d = m_shards d0"
    by (simp_all add: d_def d0_def c_def disk_run_def disk_put_def disk_del_def
        disk_with_region_def Let_def)
  have a: "\<forall>e \<in> set (m_log d). wal_entry_ok e"
    unfolding log c_def
    by (simp add: wal_entry_ok_def log_entry_put_def log_entry_del_def get_coordinate_def
        get_coordinate_value_def mk_coordinate_def)
  have b: "shard_walk (m_shards d) (get_coordinate example_hashing [97]) [97] (NOTFOUND, ([], 0))
      = Some (NOTFOUND, ([], 0))"
    unfolding sh d0_def by (simp add: shard_walk_fresh example_hashing_def)
  have m: "wal_matching (m_log d) (get_coordinate example_hashing [97]) [97] = m_log d"
    unfolding log c_def
    by (simp add: wal_matching_def primary_contains_def log_entry_put_def log_entry_del_def
        get_coordinate_def get_coordinate_value_def mk_coordinate_def)
  have l: "secondary_mask (entry_coord
        (last (wal_matching (m_log d) (get_coordinate example_hashing [97]) [97]))) = 0"
    unfolding m unfolding log c_def
    by (simp add: log_entry_del_def get_coordinate_def mk_coordinate_def)
  have ne: "wal_matching (m_log d) (get_coordinate example_hashing [97]) [97] \<noteq> []"
    unfolding m unfolding log by simp
  have "map_option fst (disk_get example_hashing d [97] ([], 0)) = Some NOTFOUND"
    by (rule wal_last_match_after_walk [OF a b, THEN conjunct2, THEN mp, OF ne, THEN conjunct2,
          THEN mp, OF l])
  then show ?thesis
    unfolding d_def d0_def .
qed

theorem put_del_only_append_witness:
  "fst (disk_put example_hashing (disk_with_region (mk_coordinate 0 0 0 0)) [97] [[49]] 1) = SUCCESS
   \<and> fst (disk_put example_hashing (disk_with_region (mk_coordinate 0 0 0 0)) [97] [] 1) = WRONGARITY
   \<and> m_shards (snd (disk_del example_hashing (disk_with_region (mk_coordinate 0 0 0 0)) [97]))
       = [(mk_coordinate 0 0 0 0, shard_create)]"
  using put_del_only_append [of example_hashing "disk_with_region (mk_coordinate 0 0 0 0)" "[97]" "[[49]]" 1]
    put_del_only_append [of example_hashing "disk_with_region (mk_coordinate 0 0 0 0)" "[97]" "[]" 1]
  by (simp add: disk_with_region_def)

theorem disk_new_one_shard_witness:
  "map_sum id (map fst \<circ> m_shards) (disk_new True True True Map.empty 2)
     = Inr [mk_coordinate 0 0 0 0]"
  using disk_new_one_shard [of True True True Map.empty 2]
  by (auto split: sum.splits)

section \<open>\<open>get\<close> on a full hash table\<close>

lemma disk_get_full:
  assumes "m_shards d = [(c0, s)]" "fill_inv 65536 s" "\<forall>b < 65536. fill_key b \<noteq> k"
    and "primary_contains c0 (get_coordinate hf k)"
    and "(ucast (CityHash64 hf k) :: uint32) = fill_hash"
  shows "disk_get hf d k out = None"
proof -
  have "primary_hash (get_coordinate hf k) = fill_hash"
    using assms(5) by (simp add: get_coordinate_def mk_coordinate_def)
  then show ?thesis
    using assms(1,4) shard_get_full [OF assms(2,3)]
    by (simp add: disk_get_def)
qed

text \<open>
  C1. After \<open>put(k, v, ver)\<close>, \<open>get(k)\<close> should return \<open>Found(v, ver)\<close>. The code
  walks the shards before it reads the WAL, and \<^verbatim>\<open>shard::get\<close> goes through
  \<^verbatim>\<open>hash_lookup\<close>, whose probe loop runs into \<^verbatim>\<open>assert(false)\<close> when no slot
  matches and none is empty. \<^verbatim>\<open>shard::put\<close> refuses a record when the data segment or
  the search log is full, never for the hash table, so \<open>HASH_TABLE_ENTRIES\<close> puts of
  distinct keys succeed and fill every slot. On a new disk whose shard has been filled
  so, \<open>put\<close> of one more key returns \<open>Success\<close> and the \<open>get\<close> of that key aborts
  in the walk (\<open>None\<close>): the pending entry is never read.
\<close>

theorem get_after_put_aborts_on_full_shard:
  "filled_shard HASH_TABLE_ENTRIES = Some full_shard
   \<and> fst (disk_put colliding_hashing (full_disk (mk_coordinate 0 0 0 0)) (fill_key 65536) fill_value 2)
       = SUCCESS
   \<and> disk_get colliding_hashing
        (snd (disk_put colliding_hashing (full_disk (mk_coordinate 0 0 0 0)) (fill_key 65536)
                fill_value 2))
        (fill_key 65536) ([], 0)
       = None"
proof -
  let ?d = "snd (disk_put colliding_hashing (full_disk (mk_coordinate 0 0 0 0)) (fill_key 65536)
                fill_value 2)"
  have "m_shards ?d = [(mk_coordinate 0 0 0 0, full_shard)]"
    by (simp add: disk_put_def full_disk_def Let_def)
  from disk_get_full [OF this full_shard_inv(2) fill_key_new, of colliding_hashing]
  have "disk_get colliding_hashing ?d (fill_key 65536) ([], 0) = None"
    by (simp add: start_contains_all colliding_hashing_def fill_hash_def)
  moreover have "fst (disk_put colliding_hashing (full_disk (mk_coordinate 0 0 0 0)) (fill_key 65536)
      fill_value 2) = SUCCESS"
    by (simp add: disk_put_def full_disk_def fill_value_def Let_def)
  ultimately show ?thesis
    using full_shard_inv(1) by simp
qed

lemma full_disk_run_shards:
  "m_shards (disk_run hf (full_disk c) ops) = [(c, full_shard)]"
  using disk_run_fields [of hf "full_disk c" ops] by (simp add: full_disk_def)

text \<open>
  C2. The last matching entry of the WAL should decide \<open>get(k)\<close>, and the result of the
  walk over the shards should be returned when no entry matches. On the same disk the
  walk aborts in \<^verbatim>\<open>hash_lookup\<close> before the WAL is read: \<open>get\<close> returns nothing when
  the last matching entry is a put, when it is a delete, and when no entry matches.
\<close>

theorem get_aborts_before_wal_on_full_shard:
  "disk_get colliding_hashing
     (disk_run colliding_hashing (full_disk (mk_coordinate 0 0 0 0))
        [Put (fill_key 65536) fill_value 1, Put (fill_key 65536) [[7]] 2])
     (fill_key 65536) ([], 0) = None
   \<and> disk_get colliding_hashing
        (disk_run colliding_hashing (full_disk (mk_coordinate 0 0 0 0))
           [Put (fill_key 65536) fill_value 1, Del (fill_key 65536)])
        (fill_key 65536) ([], 0) = None
   \<and> disk_get colliding_hashing (full_disk (mk_coordinate 0 0 0 0)) (fill_key 65536) ([], 0) = None"
proof -
  have g: "disk_get colliding_hashing d (fill_key 65536) ([], 0) = None"
    if "m_shards d = [(mk_coordinate 0 0 0 0, full_shard)]" for d
    using disk_get_full [OF that full_shard_inv(2) fill_key_new, of colliding_hashing]
    by (simp add: start_contains_all colliding_hashing_def fill_hash_def)
  have "m_shards (full_disk (mk_coordinate 0 0 0 0)) = [(mk_coordinate 0 0 0 0, full_shard)]"
    by (simp add: full_disk_def)
  with g full_disk_run_shards show ?thesis
    by simp
qed

section \<open>Full shards\<close>

text \<open>
  The three branches of \<^verbatim>\<open>deal_with_full_shard\<close>: the shard is cleaned when a
  percentage of at least 30 is stale; it is split four ways when neither mask is full;
  in between stands the assertion that always fails.
\<close>

lemma deal_with_full_shard_dispatch:
  "deal_with_full_shard create_ok oks wd d i =
     (if 30 \<le> stale_space (snd (m_shards d ! i)) then clean_shard create_ok wd d i
      else if primary_mask (fst (m_shards d ! i)) = UINT32_MAX
              \<or> secondary_mask (fst (m_shards d ! i)) = UINT32_MAX then None
      else map_option Inr (split_shard oks wd d i))"
  by (simp add: deal_with_full_shard_def assert_then_def Let_def)

text \<open>
  C3. For a shard that is full, below 30 percent stale and fully widened (both masks
  \<open>UINT32_MAX\<close>), \<^verbatim>\<open>deal_with_full_shard\<close> should report \<open>SplitFailed\<close>. The branch of
  the code reads \<^verbatim>\<open>assert(!"Not implemented"); return SPLITFAILED;\<close> under the comment
  \<^verbatim>\<open>XXX NOCOMMIT\<close>: the assertion stops the process and the \<^verbatim>\<open>return\<close> is not reached.
  The full shard of the colliding keys, in the region of that one pair of hashes, is
  such a shard: a further \<open>put\<close> gets \<open>SEARCHFULL\<close>, nothing in it is stale, and
  \<^verbatim>\<open>deal_with_full_shard\<close> returns nothing.
\<close>

theorem deal_with_full_shard_aborts_when_fully_widened:
  "shard_put full_shard fill_hash 0 (fill_key 65536) fill_value 1 = Some (SEARCHFULL, full_shard)
   \<and> stale_space full_shard = 0
   \<and> deal_with_full_shard True [True, True, True, True] Base_directory
        (full_disk (mk_coordinate UINT32_MAX fill_hash UINT32_MAX 0)) 0 = None"
  by (simp add: shard_put_full [OF full_shard_inv(2)] stale_space_full [OF full_shard_inv(2)]
      deal_with_full_shard_dispatch full_disk_def mk_coordinate_def)

section \<open>Temporary shard files (C9)\<close>

lemma length_hex16: "length (hex16 w) = 16"
  by (simp add: hex16_def)

lemma tmp_name_differs: "shard_tmp_filename c \<noteq> shard_filename c"
proof
  assume "shard_tmp_filename c = shard_filename c"
  then have "length (shard_tmp_filename c) = length (shard_filename c)"
    by simp
  then show False
    by (simp add: shard_tmp_filename_def shard_filename_def length_hex16)
qed

lemma spare_name_differs:
  "''spare-0'' \<noteq> shard_filename c" "''spare-0'' \<noteq> shard_tmp_filename c"
proof -
  have "length (shard_filename c) \<noteq> length ''spare-0''"
    "length (shard_tmp_filename c) \<noteq> length ''spare-0''"
    by (simp_all add: shard_tmp_filename_def shard_filename_def length_hex16)
  then show "''spare-0'' \<noteq> shard_filename c" "''spare-0'' \<noteq> shard_tmp_filename c"
    by (metis, metis)
qed

text \<open>
  C9. A shard made by \<open>create_tmp_shard(c)\<close> should carry the name with the suffix
  \<open>-tmp\<close> until \<open>clean_shard\<close> renames it. On a disk with one spare shard in the FIFO
  the code renames the spare file to the canonical name of \<open>c\<close>, not to the temporary
  one: afterwards no file has the temporary name, the spare name is gone, and the
  canonical name is taken. \<open>clean_shard\<close> then fails to rename the temporary file and
  returns \<open>DROPFAILED\<close>. Without a spare the new file does get the temporary name.
\<close>

theorem create_tmp_shard_spare_takes_canonical_name:
  "\<not> isl (create_tmp_shard True disk_with_spare (mk_coordinate 0 0 0 0))
   \<and> m_dir (snd (projr (create_tmp_shard True disk_with_spare (mk_coordinate 0 0 0 0))))
        (shard_tmp_filename (mk_coordinate 0 0 0 0)) = None
   \<and> m_dir (snd (projr (create_tmp_shard True disk_with_spare (mk_coordinate 0 0 0 0))))
        ''spare-0'' = None
   \<and> m_dir (snd (projr (create_tmp_shard True disk_with_spare (mk_coordinate 0 0 0 0))))
        (shard_filename (mk_coordinate 0 0 0 0)) \<noteq> None
   \<and> map_option (map_sum fst fst) (clean_shard True Base_directory disk_with_spare 0)
       = Some (Inr DROPFAILED)
   \<and> map_option (map_sum fst fst) (clean_shard True (Other_directory {}) disk_with_spare 0)
       = Some (Inr DROPFAILED)
   \<and> m_dir (snd (projr (create_tmp_shard True (disk_with_region (mk_coordinate 0 0 0 0))
                          (mk_coordinate 0 0 0 0))))
        (shard_tmp_filename (mk_coordinate 0 0 0 0)) \<noteq> None"
proof -
  let ?c = "mk_coordinate 0 0 0 0"
  have r: "create_tmp_shard True disk_with_spare ?c =
      Inr (shard_create, disk_with_spare\<lparr>m_spare_shards := [],
             m_dir := ((m_dir disk_with_spare)(''spare-0'' := None))
                        (shard_filename ?c \<mapsto> shard_create)\<rparr>)"
    by (simp add: create_tmp_shard_def disk_with_spare_def renameat_def spare_name_differs)
  have f: "create_tmp_shard True (disk_with_region ?c) ?c =
      Inr (shard_create, disk_with_region ?c \<lparr>m_dir := [shard_tmp_filename ?c \<mapsto> shard_create]\<rparr>)"
    by (simp add: create_tmp_shard_def disk_with_region_def shard_create_file_def)
  have "shard_create\<lparr>m_hash_table := (\<lambda>i. if i < HASH_TABLE_ENTRIES then 0 else m_hash_table shard_create i),
            m_search_log := (\<lambda>i. if i < 2 * SEARCH_INDEX_ENTRIES then 0 else m_search_log shard_create i),
            m_data_offset := of_nat INDEX_SEGMENT_SIZE,
            m_search_offset := 0\<rparr> = shard_create"
    by (auto simp: shard_create_def fun_eq_iff)
  then have cp: "copy_to shard_create ?c shard_create = Some shard_create"
    by (simp add: copy_to_def copy_loop.simps copy_entry_def shard_constants
        intersects_def mk_coordinate_def shard_create_fields)
  have fields: "m_shards disk_with_spare = [(?c, shard_create)]"
    "m_dir disk_with_spare = [shard_filename ?c \<mapsto> shard_create, ''spare-0'' \<mapsto> shard_create]"
    by (simp_all add: disk_with_spare_def)
  have cl: "map_option (map_sum fst fst) (clean_shard True wd disk_with_spare 0)
      = Some (Inr DROPFAILED)" for wd
    by (cases wd)
      (simp_all add: clean_shard_def fields r cp renameat_def tmp_name_differs
        spare_name_differs [symmetric] Let_def drop_tmp_shard_def unlink_cwd_def unlink_def)
  show ?thesis
    by (simp add: cl r f fields tmp_name_differs spare_name_differs
        spare_name_differs [symmetric])
qed

lemma hex16_examples:
  "hex16 0 = ''0000000000000000''" "hex16 4294967295 = ''00000000ffffffff''"
  "hex16 0x1234abcd = ''000000001234abcd''"
  by (simp_all add: hex16_def hex_digit_def upt_conv_Cons)

section \<open>Properties of \<open>which_to_split\<close>\<close>

lemma mask_test_unmasked:
  "(msk AND push_bit i 1 = 0) = unmasked msk i" "(msk AND 2 ^ i = 0) = unmasked msk i"
  unfolding unmasked_def
  by (simp_all add: push_bit_eq_mult and_exp_eq_0_iff_not_bit and_one_eq bit_iff_odd_drop_bit
      even_iff_mod_2_eq_zero)

lemma abs_diff_int32:
  fixes a b :: int32
  assumes "\<bar>sint a - sint b\<bar> < 2147483647"
  shows "sint (if a - b <s 0 then - (a - b) else a - b) = \<bar>sint a - sint b\<bar>"
proof -
  have d: "sint (a - b) = sint a - sint b"
    using assms by (simp add: sint_word_ariths signed_take_bit_int_eq_self)
  have n: "sint (- (a - b)) = - (sint a - sint b)"
    using assms d by (simp add: sint_word_ariths signed_take_bit_int_eq_self)
  show ?thesis using d n by (simp add: word_sless_alt)
qed

lemma split_step_masked:
  "\<not> unmasked msk i \<Longrightarrow> split_step msk zeros ones (diff, pos) i = (diff, pos)"
  by (simp add: split_step_def mask_test_unmasked)

lemma split_step_unmasked:
  assumes "unmasked msk i" and "imbalance zeros ones i < 2147483647"
  shows "split_step msk zeros ones (diff, pos) i =
           (if imbalance zeros ones i < sint diff
            then (word_of_int (imbalance zeros ones i), i) else (diff, pos))
         \<and> sint (word_of_int (imbalance zeros ones i) :: int32) = imbalance zeros ones i"
proof -
  let ?t = "if ones i - zeros i <s 0 then - (ones i - zeros i) else ones i - zeros i"
  have t: "sint ?t = imbalance zeros ones i"
    using assms(2) unfolding imbalance_def by (rule abs_diff_int32)
  have w: "(word_of_int (imbalance zeros ones i) :: int32) = ?t"
    by (simp only: t [symmetric] of_int_sint scast_id)
  have "split_step msk zeros ones (diff, pos) i = (if ?t <s diff then (?t, i) else (diff, pos))"
    using assms(1) by (simp add: split_step_def mask_test_unmasked Let_def)
  then show ?thesis
    using t w by (simp add: word_sless_alt)
qed

lemma split_candidate_Suc:
  "split_candidate msk (Suc n) b \<longleftrightarrow> split_candidate msk n b \<or> (b = n \<and> 1 \<le> n \<and> unmasked msk n)"
  by (auto simp: split_candidate_def less_Suc_eq)

lemma split_inv_step:
  assumes inv: "split_inv msk zeros ones n st"
    and n: "1 \<le> n"
    and bound: "unmasked msk n \<Longrightarrow> imbalance zeros ones n < 2147483647"
  shows "split_inv msk zeros ones (Suc n) (split_step msk zeros ones st n)"
proof (cases st)
  case (Pair diff pos)
  show ?thesis
  proof (cases "unmasked msk n")
    case False
    then have "\<And>b. split_candidate msk (Suc n) b = split_candidate msk n b"
      by (auto simp: split_candidate_Suc)
    with inv Pair False show ?thesis
      by (simp add: split_inv_def split_step_masked)
  next
    case True
    note st = split_step_unmasked [OF True bound [OF True], of diff pos]
    have cand: "split_candidate msk (Suc n) n"
      using True n by (simp add: split_candidate_def)
    show ?thesis
    proof (cases "\<exists>b. split_candidate msk n b")
      case False
      with inv Pair have d: "diff = INT32_MAX" "pos = 0"
        by (simp_all add: split_inv_def)
      have only: "\<And>b. split_candidate msk (Suc n) b \<longleftrightarrow> b = n"
        using False cand by (auto simp: split_candidate_Suc)
      have "imbalance zeros ones n < sint diff"
        using bound [OF True] d by (simp add: INT32_MAX_def)
      with st Pair show ?thesis
        by (simp add: split_inv_def only)
    next
      case ex: True
      with inv Pair have p: "split_candidate msk n pos" "sint diff = imbalance zeros ones pos"
        and best: "\<And>b. split_candidate msk n b \<Longrightarrow>
                 imbalance zeros ones pos \<le> imbalance zeros ones b
                 \<and> (b < pos \<longrightarrow> imbalance zeros ones pos < imbalance zeros ones b)"
        by (simp_all add: split_inv_def)
      have posn: "pos < n"
        using p(1) by (simp add: split_candidate_def)
      show ?thesis
      proof (cases "imbalance zeros ones n < sint diff")
        case less: True
        with st Pair have s: "split_step msk zeros ones st n = (word_of_int (imbalance zeros ones n), n)"
          by simp
        have "\<And>b. split_candidate msk (Suc n) b \<Longrightarrow>
                 imbalance zeros ones n \<le> imbalance zeros ones b
                 \<and> (b < n \<longrightarrow> imbalance zeros ones n < imbalance zeros ones b)"
          using best less p(2) by (fastforce simp: split_candidate_Suc)
        with s st cand show ?thesis
          unfolding split_inv_def by auto
      next
        case geq: False
        with st Pair have s: "split_step msk zeros ones st n = (diff, pos)"
          by simp
        have "\<And>b. split_candidate msk (Suc n) b \<Longrightarrow>
                 imbalance zeros ones pos \<le> imbalance zeros ones b
                 \<and> (b < pos \<longrightarrow> imbalance zeros ones pos < imbalance zeros ones b)"
          using best geq p(2) posn by (fastforce simp: split_candidate_Suc)
        moreover have "split_candidate msk (Suc n) pos"
          using p(1) by (simp add: split_candidate_Suc)
        ultimately show ?thesis
          using s p(2) unfolding split_inv_def by auto
      qed
    qed
  qed
qed

lemma split_inv_fold:
  assumes bound: "\<And>b. split_candidate msk 32 b \<Longrightarrow> imbalance zeros ones b < 2147483647"
  shows "n < 32 \<Longrightarrow>
         split_inv msk zeros ones (Suc n) (foldl (split_step msk zeros ones) (INT32_MAX, 0) [1..<Suc n])"
proof (induction n)
  case 0
  show ?case
    by (simp add: split_inv_def split_candidate_def)
next
  case (Suc n)
  then have ih: "split_inv msk zeros ones (Suc n)
                   (foldl (split_step msk zeros ones) (INT32_MAX, 0) [1..<Suc n])"
    by simp
  have "unmasked msk (Suc n) \<Longrightarrow> imbalance zeros ones (Suc n) < 2147483647"
    using bound [of "Suc n"] Suc.prems by (simp add: split_candidate_def)
  from split_inv_step [OF ih _ this] show ?case
    by simp
qed

text \<open>
  The property of the loop, for arrays whose imbalance \<open>|ones[b] - zeros[b]|\<close> stays
  below the initial value \<open>INT32_MAX\<close> of \<open>diff\<close> at every unmasked position 1 to 31.
\<close>

lemma which_to_split_first_minimum:
  assumes "\<exists>b. split_candidate msk 32 b"
    and "\<forall>b. split_candidate msk 32 b \<longrightarrow> imbalance zeros ones b < 2147483647"
  shows "split_candidate msk 32 (which_to_split msk zeros ones)
         \<and> which_to_split msk zeros ones \<noteq> 0
         \<and> (\<forall>b. split_candidate msk 32 b \<longrightarrow>
               imbalance zeros ones (which_to_split msk zeros ones) \<le> imbalance zeros ones b
               \<and> (b < which_to_split msk zeros ones \<longrightarrow>
                    imbalance zeros ones (which_to_split msk zeros ones) < imbalance zeros ones b))"
proof -
  let ?w = "which_to_split msk zeros ones"
  define r where "r = foldl (split_step msk zeros ones) (INT32_MAX, 0) [1..<Suc 31]"
  have n32: "(32::nat) = Suc 31"
    by simp
  have nonneg: "\<not> INT32_MAX <s 0"
    by (simp add: INT32_MAX_def word_sless_alt)
  have w: "?w = snd r"
    by (simp only: which_to_split_def Let_def nonneg if_False n32 r_def)
  have bound: "\<And>b. split_candidate msk 32 b \<Longrightarrow> imbalance zeros ones b < 2147483647"
    using assms(2) by blast
  have "split_inv msk zeros ones (Suc 31) r"
    unfolding r_def by (rule split_inv_fold [OF bound]) simp_all
  then have inv: "split_inv msk zeros ones 32 (fst r, ?w)"
    by (simp only: w n32 prod.collapse)
  from inv assms(1) have "split_candidate msk 32 ?w
      \<and> (\<forall>b. split_candidate msk 32 b \<longrightarrow>
            imbalance zeros ones ?w \<le> imbalance zeros ones b
            \<and> (b < ?w \<longrightarrow> imbalance zeros ones ?w < imbalance zeros ones b))"
    by (simp add: split_inv_def)
  moreover from this have "?w \<noteq> 0"
    by (simp add: split_candidate_def)
  ultimately show ?thesis
    by blast
qed

lemma count_arrays_imbalance:
  assumes "count_arrays zeros ones" and "b < 32"
  shows "imbalance zeros ones b < 2147483647"
proof -
  from assms have "0 \<le> sint (zeros b)" "0 \<le> sint (ones b)"
    "sint (zeros b) + sint (ones b) \<le> int SEARCH_INDEX_ENTRIES"
    by (simp_all add: count_arrays_def)
  then show ?thesis
    by (simp add: imbalance_def SEARCH_INDEX_ENTRIES_def)
qed

text \<open>The arrays that \<^verbatim>\<open>split_shard\<close> passes to \<open>which_to_split\<close> are count arrays.\<close>

lemma sint_succ:
  fixes x :: int32
  assumes "0 \<le> sint x" "sint x < 2147483647"
  shows "sint (x + 1) = sint x + 1"
  using assms by (simp add: sint_word_ariths signed_take_bit_int_eq_self)

lemma count_bit_at:
  "count_bit msk h st j = (zs, os) \<Longrightarrow>
   (zs b, os b) =
     (if b = j \<and> msk AND push_bit j 1 = 0
      then (if h AND push_bit j 1 \<noteq> 0 then (fst st b, snd st b + 1) else (fst st b + 1, snd st b))
      else (fst st b, snd st b))"
  by (cases st) (auto simp: count_bit_def split: if_splits)

lemma count_record_at:
  "m \<le> 32 \<Longrightarrow>
   (fst (foldl (count_bit msk h) st [0..<m]) b, snd (foldl (count_bit msk h) st [0..<m]) b) =
     (if b < m \<and> msk AND push_bit b 1 = 0
      then (if h AND push_bit b 1 \<noteq> 0 then (fst st b, snd st b + 1) else (fst st b + 1, snd st b))
      else (fst st b, snd st b))"
proof (induction m)
  case 0
  show ?case by simp
next
  case (Suc m)
  obtain zs os where r: "count_bit msk h (foldl (count_bit msk h) st [0..<m]) m = (zs, os)"
    by (cases "count_bit msk h (foldl (count_bit msk h) st [0..<m]) m") auto
  from count_bit_at [OF r, of b] Suc show ?case
    by (auto simp: r less_Suc_eq)
qed

lemma counted_record:
  assumes "counted n st" "n < 1073741824"
  shows "counted (Suc n) (count_record msk st h)"
proof -
  have "0 \<le> sint (fst (count_record msk st h) b) \<and> 0 \<le> sint (snd (count_record msk st h) b)
      \<and> sint (fst (count_record msk st h) b) + sint (snd (count_record msk st h) b) \<le> int (Suc n)" for b
  proof -
    from assms(1) have o: "0 \<le> sint (fst st b)" "0 \<le> sint (snd st b)"
      "sint (fst st b) + sint (snd st b) \<le> int n"
      by (simp_all add: counted_def)
    then have s: "sint (fst st b + 1) = sint (fst st b) + 1" "sint (snd st b + 1) = sint (snd st b) + 1"
      using assms(2) by (simp_all add: sint_succ)
    from count_record_at [of 32 msk h st b] o s show ?thesis
      unfolding count_record_def by (auto split: if_splits)
  qed
  then show ?thesis
    unfolding counted_def by blast
qed

lemma counted_mono: "counted n st \<Longrightarrow> n \<le> m \<Longrightarrow> counted m st"
  unfolding counted_def by (meson dual_order.trans of_nat_mono)

lemma counted_fold:
  "counted n st \<Longrightarrow> n + length hs < 1073741824 \<Longrightarrow>
   counted (n + length hs) (foldl (count_record msk) st hs)"
proof (induction hs arbitrary: n st)
  case Nil
  then show ?case by simp
next
  case (Cons h hs)
  have "counted (Suc n) (count_record msk st h)"
    using Cons.prems by (intro counted_record) simp_all
  from Cons.IH [OF this] Cons.prems(2) show ?case
    by simp
qed

lemma length_snapshot_hashes: "length (snapshot_hashes s) \<le> m_search_offset s"
  unfolding snapshot_hashes_def by (simp add: le_trans [OF length_filter_le])

lemma counted_arrays:
  "counted n st \<Longrightarrow> n \<le> SEARCH_INDEX_ENTRIES \<Longrightarrow> count_arrays (fst st) (snd st)"
  unfolding counted_def count_arrays_def by (meson dual_order.trans of_nat_mono)

lemma counted_zero: "counted 0 (\<lambda>_. 0, \<lambda>_. 0)"
  by (simp add: counted_def)

lemma count_secondary_arrays:
  assumes "m_search_offset s \<le> SEARCH_INDEX_ENTRIES"
  shows "count_arrays (fst (count_secondary c s)) (snd (count_secondary c s))"
proof -
  let ?hs = "map snd (snapshot_hashes s)"
  have l: "length ?hs \<le> SEARCH_INDEX_ENTRIES"
    using length_snapshot_hashes [of s] assms by simp
  then have "0 + length ?hs < 1073741824"
    by (simp add: SEARCH_INDEX_ENTRIES_def)
  from counted_fold [OF counted_zero this, of "secondary_mask c"]
  have "counted (length ?hs) (count_secondary c s)"
    by (simp add: count_secondary_def)
  from counted_arrays [OF this l] show ?thesis .
qed

lemma counted_primary_fold:
  "counted n (fst st) \<Longrightarrow> counted n (snd st) \<Longrightarrow> n + length rs < 1073741824 \<Longrightarrow>
   counted (n + length rs) (fst (foldl (count_primary_record msk sbit) st rs))
   \<and> counted (n + length rs) (snd (foldl (count_primary_record msk sbit) st rs))"
proof (induction rs arbitrary: n st)
  case Nil
  then show ?case by simp
next
  case (Cons r rs)
  obtain lower upper where st: "st = (lower, upper)"
    by (cases st) auto
  have n: "n < 1073741824"
    using Cons.prems(3) by simp
  have "counted (Suc n) (fst (count_primary_record msk sbit st r))
      \<and> counted (Suc n) (snd (count_primary_record msk sbit st r))"
    using Cons.prems(1,2) counted_record [OF _ n, of lower msk "fst r"]
      counted_record [OF _ n, of upper msk "fst r"] counted_mono [of n _ "Suc n"]
    by (auto simp: st count_primary_record_def)
  with Cons.IH [of "Suc n" "count_primary_record msk sbit st r"] Cons.prems(3) show ?case
    by simp
qed

lemma count_primary_arrays:
  assumes "m_search_offset s \<le> SEARCH_INDEX_ENTRIES"
  shows "count_arrays (fst (fst (count_primary c sbit s))) (snd (fst (count_primary c sbit s)))
         \<and> count_arrays (fst (snd (count_primary c sbit s))) (snd (snd (count_primary c sbit s)))"
proof -
  let ?rs = "snapshot_hashes s"
  have l: "length ?rs \<le> SEARCH_INDEX_ENTRIES"
    using length_snapshot_hashes [of s] assms by simp
  then have "0 + length ?rs < 1073741824"
    by (simp add: SEARCH_INDEX_ENTRIES_def)
  from counted_primary_fold [of 0 "((\<lambda>_. 0, \<lambda>_. 0), (\<lambda>_. 0, \<lambda>_. 0))", OF _ _ this,
      of "primary_mask c" sbit]
  have "counted (length ?rs) (fst (count_primary c sbit s))
      \<and> counted (length ?rs) (snd (count_primary c sbit s))"
    by (simp add: count_primary_def counted_zero)
  with counted_arrays l show ?thesis
    by blast
qed

text \<open>
  C8. For a mask with a clear bit among positions 1 to 31 and every pair of count
  arrays, \<open>which_to_split\<close> returns an unmasked position between 1 and 31 whose
  imbalance \<open>|ones[b] - zeros[b]|\<close> is minimal among the unmasked positions 1 to 31, and
  every unmasked position below the one returned has a strictly larger imbalance (the
  lowest index wins a tie); position 0 is not returned.
\<close>

theorem which_to_split_minimises:
  assumes "\<exists>b. split_candidate msk 32 b"
    and "count_arrays zeros ones"
  shows "split_candidate msk 32 (which_to_split msk zeros ones)
         \<and> which_to_split msk zeros ones \<noteq> 0
         \<and> (\<forall>b. split_candidate msk 32 b \<longrightarrow>
               imbalance zeros ones (which_to_split msk zeros ones) \<le> imbalance zeros ones b
               \<and> (b < which_to_split msk zeros ones \<longrightarrow>
                    imbalance zeros ones (which_to_split msk zeros ones) < imbalance zeros ones b))"
proof -
  have "\<forall>b. split_candidate msk 32 b \<longrightarrow> imbalance zeros ones b < 2147483647"
    using count_arrays_imbalance [OF assms(2)] by (simp add: split_candidate_def)
  with assms(1) show ?thesis
    by (rule which_to_split_first_minimum)
qed

theorem which_to_split_minimises_witness:
  "split_candidate 6 32 5
   \<and> count_arrays (counts_of [0, 0, 0, 2, 0, 4, 4, 5]) (counts_of [0, 0, 0, 7, 9, 5, 5, 4])
   \<and> which_to_split 6 (counts_of [0, 0, 0, 2, 0, 4, 4, 5]) (counts_of [0, 0, 0, 7, 9, 5, 5, 4]) \<noteq> 0
   \<and> imbalance (counts_of [0, 0, 0, 2, 0, 4, 4, 5]) (counts_of [0, 0, 0, 7, 9, 5, 5, 4])
        (which_to_split 6 (counts_of [0, 0, 0, 2, 0, 4, 4, 5]) (counts_of [0, 0, 0, 7, 9, 5, 5, 4]))
      \<le> imbalance (counts_of [0, 0, 0, 2, 0, 4, 4, 5]) (counts_of [0, 0, 0, 7, 9, 5, 5, 4]) 5"
proof -
  have c: "split_candidate 6 32 5"
    by (simp add: split_candidate_def unmasked_def)
  have a: "\<exists>b. split_candidate 6 32 b"
    using c by blast
  have "0 \<le> sint (counts_of [0, 0, 0, 2, 0, 4, 4, 5] b)
        \<and> 0 \<le> sint (counts_of [0, 0, 0, 7, 9, 5, 5, 4] b)
        \<and> sint (counts_of [0, 0, 0, 2, 0, 4, 4, 5] b) + sint (counts_of [0, 0, 0, 7, 9, 5, 5, 4] b)
            \<le> int SEARCH_INDEX_ENTRIES" for b
    by (simp add: counts_of_def nth_Cons SEARCH_INDEX_ENTRIES_def split: nat.split)
  then have b: "count_arrays (counts_of [0, 0, 0, 2, 0, 4, 4, 5]) (counts_of [0, 0, 0, 7, 9, 5, 5, 4])"
    by (simp add: count_arrays_def)
  show ?thesis
    using which_to_split_minimises [OF a b] c b by blast
qed

end
